theory Spec2Isabelle
  imports Complex_Main "HOL-Library.Signed_Division" "HOL-Library.Sublist"
begin

section \<open>SBic: segmentation with the Bayesian Information Criterion\<close>

text \<open>
  A shallow embedding of \<^verbatim>\<open>src/algorithms/highlevel/sbic.cpp\<close>.

  Conventions of the embedding.
  \<^item> The C++ type \<^verbatim>\<open>Real\<close> (single precision) is modelled by the mathematical reals and
    \<^verbatim>\<open>log\<close> by the natural logarithm \<open>ln\<close>: sums, products and comparisons are exact,
    there is no rounding, no infinity and no NaN. The exception is \<open>logDet_f32\<close>, a second
    embedding of \<^verbatim>\<open>logDet\<close> in single-precision arithmetic, for the value of \<^verbatim>\<open>logDet\<close>
    on constant features, which the rounding changes.
  \<^item> \<^verbatim>\<open>int\<close> is modelled by the unbounded integers: frame indices are indices into an array
    held in memory, far from the wrap-around of a 32-bit integer.
  \<^item> A \<^verbatim>\<open>while\<close> loop whose exit depends on a parameter is a \<open>partial_function\<close> in the
    option monad: \<open>None\<close> is a loop that never exits.
  \<^item> A read past the end of the vector \<^verbatim>\<open>tmpBicValues\<close> is undefined behaviour in C++; the
    model stops there with the error \<open>OutOfRange\<close>. The reads of \<^verbatim>\<open>segmentation\<close> in the
    second and third loop are guarded by the loop conditions of the source and stay inside
    the vector.
  \<^item> The entries of a matrix are a total function of the two indices: the model does not
    track a read outside the dimensions of a matrix.
  \<^item> The header \<^verbatim>\<open>sbic.h\<close> is not among the sources: the members that it declares are the
    fields of the record \<open>sbic\<close> below, parameters of every function that reads them.
\<close>

subsection \<open>Array2D and \<^verbatim>\<open>subarray\<close>\<close>

text \<open>
  \<^verbatim>\<open>TNT::Array2D<Real>\<close>: the two dimensions and the entries. \<open>elem m i j\<close> is
  \<^verbatim>\<open>m[i][j]\<close>; \<open>dim1\<close> counts the features and \<open>dim2\<close> the frames.
\<close>

record array2d =
  dim1 :: int
  dim2 :: int
  elem :: "int \<Rightarrow> int \<Rightarrow> real"

text \<open>The default-constructed \<^verbatim>\<open>Array2D<Real>()\<close>: no rows, no columns.\<close>

definition Array2D_empty :: array2d where
  "Array2D_empty = \<lparr>dim1 = 0, dim2 = 0, elem = (\<lambda>i j. 0)\<rparr>"

definition subarray :: "array2d \<Rightarrow> int \<Rightarrow> int \<Rightarrow> int \<Rightarrow> int \<Rightarrow> array2d" where
  "subarray matrix i0 i1 j0 j1 =
     (let d1 = i1 - i0 + 1; d2 = j1 - j0 + 1 in
      if d1 < 1 \<or> d2 < 1 then Array2D_empty
      else \<lparr>dim1 = d1, dim2 = d2, elem = (\<lambda>i j. elem matrix (i + i0) (j + j0))\<rparr>)"

subsection \<open>\<^verbatim>\<open>SBic::logDet\<close>\<close>

text \<open>
  The two nested loops accumulate, for every feature \<open>i\<close>, the sum \<open>mp[i]\<close> and the sum of
  squares \<open>vp[i]\<close> over the frames; the last loop adds up the logarithms of the diagonal
  covariances, with the floor \<open>-5\<close> below the threshold \<open>1e-5\<close>.
\<close>

definition mp_of :: "array2d \<Rightarrow> int \<Rightarrow> real" where
  "mp_of matrix i = foldl (\<lambda>acc j. acc + elem matrix i j) 0 [0..dim2 matrix - 1]"

definition vp_of :: "array2d \<Rightarrow> int \<Rightarrow> real" where
  "vp_of matrix i =
     foldl (\<lambda>acc j. acc + elem matrix i j * elem matrix i j) 0 [0..dim2 matrix - 1]"

definition logDet :: "array2d \<Rightarrow> real" where
  "logDet matrix =
     (let z = 1 / real_of_int (dim2 matrix); zz = z * z in
      foldl (\<lambda>logd j.
               let diag_cov = vp_of matrix j * z - mp_of matrix j * mp_of matrix j * zz
               in logd + (if diag_cov > 1 / 100000 then ln diag_cov else - 5))
            0 [0..dim1 matrix - 1])"

subsection \<open>\<^verbatim>\<open>SBic::logDet\<close> in single precision\<close>

text \<open>
  The comment at lines 98 to 100 of the source says that this code accumulates rounding
  errors, which causes bad behaviour when the input features are constant, and that
  constant features should give a covariance of zero. Exact arithmetic cannot show this,
  so \<^verbatim>\<open>logDet\<close> has a second embedding, in the arithmetic of the machine.

  A binary floating-point number of precision \<open>p\<close> is \<open>n * 2^e\<close> with \<open>\<bar>n\<bar> < 2^p\<close> and
  \<open>e \<ge> emin\<close>. \<open>rnd p emin x\<close> rounds the real \<open>x\<close> to the nearest such number, a tie
  going to the even \<open>n\<close> (the default rounding mode of IEEE 754): the exponent is that
  of the binade of \<open>x\<close>, \<open>\<lfloor>log\<^sub>2 \<bar>x\<bar>\<rfloor> - (p - 1)\<close>, and stays at \<open>emin\<close> for the subnormal
  numbers. Overflow to infinity is not modelled. \<open>fl32\<close> is the rounding to \<^verbatim>\<open>float\<close>
  (the type \<^verbatim>\<open>Real\<close>), \<open>fl64\<close> the rounding to \<^verbatim>\<open>double\<close>; \<open>pow2 e\<close> is \<open>2^e\<close> for an
  integer \<open>e\<close>.
\<close>

definition round_even :: "real \<Rightarrow> int" where
  "round_even x =
     (let f = \<lfloor>x\<rfloor>; r = x - real_of_int f in
      if r < 1 / 2 then f else if 1 / 2 < r then f + 1 else if even f then f else f + 1)"

definition pow2 :: "int \<Rightarrow> real" where
  "pow2 e = (if 0 \<le> e then 2 ^ nat e else 1 / 2 ^ nat (- e))"

definition rnd :: "int \<Rightarrow> int \<Rightarrow> real \<Rightarrow> real" where
  "rnd p emin x =
     (if x = 0 then 0
      else let e = max (\<lfloor>log 2 \<bar>x\<bar>\<rfloor> - (p - 1)) emin
           in real_of_int (round_even (x / pow2 e)) * pow2 e)"

definition fl32 :: "real \<Rightarrow> real" where
  "fl32 = rnd 24 (- 149)"

definition fl64 :: "real \<Rightarrow> real" where
  "fl64 = rnd 53 (- 1074)"

text \<open>
  \<^verbatim>\<open>log\<close> at an argument of type \<^verbatim>\<open>Real\<close>: the natural logarithm, rounded to single
  precision.
\<close>

definition logf :: "real \<Rightarrow> real" where
  "logf x = fl32 (ln x)"

text \<open>
  The function again, every operation followed by the rounding to the type in which the
  source computes it, one operation at a time (no fused multiply-add). The entries of the
  matrix are single-precision numbers. \<^verbatim>\<open>1.0 / Real(dim2)\<close> is a division in \<^verbatim>\<open>double\<close>,
  stored in the \<^verbatim>\<open>Real\<close> \<open>z\<close>; the literal \<^verbatim>\<open>1e-5\<close> is a \<^verbatim>\<open>double\<close>.
\<close>

definition mp_f32 :: "array2d \<Rightarrow> int \<Rightarrow> real" where
  "mp_f32 matrix i = foldl (\<lambda>acc j. fl32 (acc + elem matrix i j)) 0 [0..dim2 matrix - 1]"

definition vp_f32 :: "array2d \<Rightarrow> int \<Rightarrow> real" where
  "vp_f32 matrix i =
     foldl (\<lambda>acc j. fl32 (acc + fl32 (elem matrix i j * elem matrix i j))) 0
           [0..dim2 matrix - 1]"

definition diag_cov_f32 :: "array2d \<Rightarrow> int \<Rightarrow> real" where
  "diag_cov_f32 matrix j =
     (let z = fl32 (fl64 (1 / fl32 (real_of_int (dim2 matrix)))); zz = fl32 (z * z)
      in fl32 (fl32 (vp_f32 matrix j * z)
               - fl32 (fl32 (mp_f32 matrix j * mp_f32 matrix j) * zz)))"

definition logDet_f32 :: "array2d \<Rightarrow> real" where
  "logDet_f32 matrix =
     foldl (\<lambda>logd j.
              let diag_cov = diag_cov_f32 matrix j
              in fl32 (logd + (if diag_cov > fl64 (1 / 100000) then logf diag_cov else - 5)))
           0 [0..dim1 matrix - 1]"

subsection \<open>The algorithm object\<close>

text \<open>
  The members of \<^verbatim>\<open>SBic\<close> read by the code: the four configured sizes, the penalty weight
  \<^verbatim>\<open>_cpw\<close> and the penalty coefficient \<^verbatim>\<open>_cp\<close> that \<^verbatim>\<open>compute\<close> sets.
\<close>

record sbic =
  size1 :: int
  inc1 :: int
  size2 :: int
  inc2 :: int
  cpw :: real
  cp :: real

text \<open>\<^verbatim>\<open>numeric_limits<Real>::max()\<close> for the single-precision \<^verbatim>\<open>Real\<close>.\<close>

definition Real_max :: real where
  "Real_max = 340282346638528859811704183484516925440"

text \<open>The conversion \<^verbatim>\<open>int(x)\<close> of a \<^verbatim>\<open>Real\<close>: truncation towards zero.\<close>

definition int_of_Real :: "real \<Rightarrow> int" where
  "int_of_Real x = (if 0 \<le> x then \<lfloor>x\<rfloor> else \<lceil>x\<rceil>)"

subsection \<open>\<^verbatim>\<open>SBic::bicChangeSearch\<close>\<close>

text \<open>
  The differential that one round of the search loop computes at the mid position
  \<open>shift\<close>; \<open>s\<close> is the log-determinant of the whole window.
\<close>

definition dBicValue_at :: "array2d \<Rightarrow> real \<Rightarrow> real \<Rightarrow> int \<Rightarrow> real" where
  "dBicValue_at matrix s penalty shift =
     (let nFeatures = dim1 matrix; nFrames = dim2 matrix;
          n1 = shift + 1;
          s1 = logDet (subarray matrix 0 (nFeatures - 1) 0 shift);
          n2 = nFrames - n1;
          s2 = logDet (subarray matrix 0 (nFeatures - 1) (shift + 1) (nFrames - 1))
      in 0.5 * (real_of_int n1 * s1 + real_of_int n2 * s2 - real_of_int nFrames * s + penalty))"

text \<open>
  The loop on all mid positions. Its state is \<open>(shift, seg, dmin, d)\<close>. With \<open>inc \<le> 0\<close>
  the position never advances and the loop does not exit.
\<close>

partial_function (option) search_loop ::
  "array2d \<Rightarrow> int \<Rightarrow> real \<Rightarrow> real \<Rightarrow> int \<times> int \<times> real \<times> real list
     \<Rightarrow> (int \<times> int \<times> real \<times> real list) option" where
  "search_loop matrix inc s penalty st =
     (case st of (shift, seg, dmin, d) \<Rightarrow>
        if shift < dim2 matrix - inc then
          (let dBicValue = dBicValue_at matrix s penalty shift in
           search_loop matrix inc s penalty
             (shift + inc,
              (if dBicValue < dmin then shift else seg),
              (if dBicValue < dmin then dBicValue else dmin),
              d @ [dBicValue]))
        else Some st)"

text \<open>
  The result is the pair of the source (the change position and the sampled curve \<open>d\<close>)
  together with the final \<open>dmin\<close>, which the source returns through a reference.
\<close>

definition bicChangeSearch ::
  "sbic \<Rightarrow> array2d \<Rightarrow> int \<Rightarrow> int \<Rightarrow> (int \<times> real list \<times> real) option" where
  "bicChangeSearch sb matrix inc current =
     (let nFrames = dim2 matrix;
          penalty = cpw sb * cp sb * ln (real_of_int nFrames);
          s = logDet matrix
      in case search_loop matrix inc s penalty (inc - 1, 0, Real_max, []) of
           None \<Rightarrow> None
         | Some (shift, seg, dmin, d) \<Rightarrow>
             Some (if dmin > 0 then 0 else current + seg, d, dmin))"

subsection \<open>\<^verbatim>\<open>SBic::delta_bic\<close>\<close>

definition delta_bic :: "sbic \<Rightarrow> array2d \<Rightarrow> real \<Rightarrow> real" where
  "delta_bic sb matrix segPoint =
     (let nFeatures = dim1 matrix; nFrames = dim2 matrix;
          s = logDet matrix;
          s1 = logDet (subarray matrix 0 (nFeatures - 1) 0 (int_of_Real segPoint));
          s2 = logDet (subarray matrix 0 (nFeatures - 1) (int_of_Real (segPoint + 1)) (nFrames - 1))
      in 0.5 * (segPoint * s1 + (real_of_int nFrames - segPoint) * s2 - real_of_int nFrames * s
                + cpw sb * cp sb * ln (real_of_int nFrames)))"

subsection \<open>\<^verbatim>\<open>SBic::compute\<close>\<close>

text \<open>
  The outcomes of \<^verbatim>\<open>compute\<close> other than a normal return: the \<^verbatim>\<open>EssentiaException\<close>
  thrown for a matrix with fewer than two frames, and a read past the end of
  \<^verbatim>\<open>tmpBicValues\<close>.
\<close>

datatype error = InvalidInput | OutOfRange

text \<open>
  The state that the three passes share: the local variables \<^verbatim>\<open>currSeg\<close>, \<^verbatim>\<open>endSeg\<close>,
  \<^verbatim>\<open>i\<close> and \<^verbatim>\<open>dmin\<close>, and the three output vectors. The locals carry the prefix
  \<open>st_\<close>; the outputs keep their names.
\<close>

record state =
  st_currSeg :: int
  st_endSeg :: int
  st_i :: int
  st_dmin :: real
  segmentation :: "real list"
  segValues :: "real list"
  bicValues :: "real list"

text \<open>
  \<^verbatim>\<open>for (...) bicValues.push_back(tmpBicValues[k])\<close> over the indices \<open>ks\<close>, in order;
  an index outside \<^verbatim>\<open>tmpBicValues\<close> ends the run.
\<close>

fun push_back_all :: "real list \<Rightarrow> int list \<Rightarrow> real list \<Rightarrow> error + real list" where
  "push_back_all tmpBicValues [] bicVals = Inr bicVals"
| "push_back_all tmpBicValues (k # ks) bicVals =
     (if 0 \<le> k \<and> k < int (length tmpBicValues)
      then push_back_all tmpBicValues ks (bicVals @ [tmpBicValues ! nat k])
      else Inl OutOfRange)"

text \<open>\<^verbatim>\<open>v.erase(v.begin() + k)\<close> for an index \<open>k\<close> inside the vector.\<close>

definition erase :: "'a list \<Rightarrow> nat \<Rightarrow> 'a list" where
  "erase v k = take k v @ drop (k + 1) v"

text \<open>
  The part of a coarse round after the search: a found change point (\<^verbatim>\<open>if (i)\<close>) is
  appended and the window restarts behind it; a window that ends on the last frame
  appends the samples \<^verbatim>\<open>tmpBicValues[j+currSeg]\<close>.
\<close>

definition coarse_store ::
  "sbic \<Rightarrow> int \<Rightarrow> state \<Rightarrow> int \<Rightarrow> real list \<Rightarrow> real \<Rightarrow> error + state" where
  "coarse_store sb nFrames st i tmpBicValues dmin =
     (let st1 = st\<lparr>st_i := i, st_dmin := dmin\<rparr>;
          found =
            (if i \<noteq> 0 then
               (let prevCurrSeg = st_currSeg st1;
                    st2 = st1\<lparr>segmentation := segmentation st1 @ [real_of_int i],
                              segValues := segValues st1 @ [dmin],
                              st_currSeg := i + inc1 sb,
                              st_endSeg := i + inc1 sb - 1\<rparr>;
                    nToAdd = i - prevCurrSeg + 1
                in case push_back_all tmpBicValues [0..nToAdd - 1] (bicValues st2) of
                     Inl e \<Rightarrow> Inl e
                   | Inr b \<Rightarrow> Inr (st2\<lparr>bicValues := b\<rparr>))
             else Inr st1)
      in case found of
           Inl e \<Rightarrow> Inl e
         | Inr st3 \<Rightarrow>
             if st_endSeg st3 = nFrames - 1 then
               (case push_back_all tmpBicValues
                       (map (\<lambda>j. j + st_currSeg st3) [0..int (length tmpBicValues) - 1])
                       (bicValues st3) of
                  Inl e \<Rightarrow> Inl e
                | Inr b \<Rightarrow> Inr (st3\<lparr>bicValues := b\<rparr>))
             else Inr st3)"

text \<open>One round of the first \<^verbatim>\<open>while\<close> loop.\<close>

definition coarse_body :: "sbic \<Rightarrow> array2d \<Rightarrow> state \<Rightarrow> (error + state) option" where
  "coarse_body sb features st =
     (let nFeatures = dim1 features; nFrames = dim2 features;
          endSeg = st_endSeg st + size1 sb;
          endSeg = (if endSeg \<ge> nFrames then nFrames - 1 else endSeg);
          window = subarray features 0 (nFeatures - 1) (st_currSeg st) endSeg
      in case bicChangeSearch sb window (inc1 sb) (st_currSeg st) of
           None \<Rightarrow> None
         | Some (i, tmpBicValues, dmin) \<Rightarrow>
             Some (coarse_store sb nFrames (st\<lparr>st_endSeg := endSeg\<rparr>) i tmpBicValues dmin))"

partial_function (option) coarse_loop ::
  "sbic \<Rightarrow> array2d \<Rightarrow> state \<Rightarrow> (error + state) option" where
  "coarse_loop sb features st =
     (if st_endSeg st < dim2 features - 1 then
        (case coarse_body sb features st of
           None \<Rightarrow> None
         | Some (Inl e) \<Rightarrow> Some (Inl e)
         | Some (Inr st') \<Rightarrow> coarse_loop sb features st')
      else Some (Inr st))"

text \<open>
  The part of a fine round after the search. The test \<^verbatim>\<open>if (i)\<close> and the three uses of
  \<^verbatim>\<open>i\<close> below it read the variable \<^verbatim>\<open>i\<close> of \<^verbatim>\<open>compute\<close>, which the fine pass never
  assigns: the result \<^verbatim>\<open>bicChangeResult\<close> of the fine search is not read, only \<^verbatim>\<open>dmin\<close>
  is updated, through the reference. The result is the new state and the new \<^verbatim>\<open>currIdx\<close>
  (before the \<^verbatim>\<open>++currIdx\<close> of the loop).
\<close>

definition fine_store :: "int \<Rightarrow> state \<Rightarrow> int \<Rightarrow> state \<times> int" where
  "fine_store nFrames st currIdx =
     (let i = st_i st; seg = segmentation st in
      if i \<noteq> 0 then
        (let prevSeg = (if currIdx = 0 then 0 else int_of_Real (seg ! nat (currIdx - 1)));
             nextSeg = (if currIdx + 1 \<ge> int (length seg) then nFrames - 1
                        else int_of_Real (seg ! nat (currIdx + 1)))
         in if prevSeg \<le> i \<and> i \<le> nextSeg then
              (if i \<noteq> int_of_Real (seg ! nat currIdx)
               then (st\<lparr>segmentation := seg[nat currIdx := real_of_int i],
                        segValues := (segValues st)[nat currIdx := st_dmin st]\<rparr>, currIdx)
               else (st, currIdx))
            else
              (if currIdx < int (length seg)
               then (st\<lparr>segmentation := erase seg (nat currIdx),
                        segValues := erase (segValues st) (nat currIdx)\<rparr>, currIdx - 1)
               else (st, currIdx)))
      else (st, currIdx))"

text \<open>One round of the second loop, for the entry \<^verbatim>\<open>currIdx\<close>.\<close>

definition fine_body :: "sbic \<Rightarrow> array2d \<Rightarrow> state \<Rightarrow> int \<Rightarrow> (state \<times> int) option" where
  "fine_body sb features st currIdx =
     (let nFeatures = dim1 features; nFrames = dim2 features;
          halfSize = size2 sb sdiv 2;
          currSeg = int_of_Real (segmentation st ! nat currIdx - real_of_int halfSize);
          currSeg = (if currSeg < 0 then 0 else currSeg);
          endSeg = currSeg + size2 sb - 1;
          endSeg = (if endSeg \<ge> nFrames then nFrames - 1 else endSeg);
          window = subarray features 0 (nFeatures - 1) currSeg endSeg
      in case bicChangeSearch sb window (inc1 sb) currSeg of
           None \<Rightarrow> None
         | Some (r, tmp, dmin) \<Rightarrow>
             Some (fine_store nFrames
                     (st\<lparr>st_currSeg := currSeg, st_endSeg := endSeg, st_dmin := dmin\<rparr>) currIdx))"

partial_function (option) fine_loop ::
  "sbic \<Rightarrow> array2d \<Rightarrow> state \<times> int \<Rightarrow> state option" where
  "fine_loop sb features sc =
     (case sc of (st, currIdx) \<Rightarrow>
        if currIdx < int (length (segmentation st)) then
          (case fine_body sb features st currIdx of
             None \<Rightarrow> None
           | Some (st', currIdx') \<Rightarrow> fine_loop sb features (st', currIdx' + 1))
        else Some st)"

text \<open>
  One round of the third loop, for the entry \<^verbatim>\<open>i\<close>. The loop starts at \<^verbatim>\<open>i = 1\<close>, and a
  round either leaves \<^verbatim>\<open>i\<close> as it is (\<^verbatim>\<open>--i; continue;\<close> followed by the \<^verbatim>\<open>++i\<close> of the
  loop) or adds one to it: \<^verbatim>\<open>i\<close> is a natural number here, and the result is the new state
  with the value of \<^verbatim>\<open>i\<close> for the next round.
\<close>

definition validation_body :: "sbic \<Rightarrow> array2d \<Rightarrow> state \<Rightarrow> nat \<Rightarrow> state \<times> nat" where
  "validation_body sb features st i =
     (let nFeatures = dim1 features; seg = segmentation st;
          endSeg = int_of_Real (seg ! (i + 1));
          window = subarray features 0 (nFeatures - 1) (st_currSeg st) endSeg
      in if delta_bic sb window (seg ! i - seg ! (i - 1)) > 0
         then (st\<lparr>st_endSeg := endSeg, segmentation := erase seg i,
                  segValues := erase (segValues st) i, st_i := int i\<rparr>, i)
         else (st\<lparr>st_endSeg := endSeg, st_currSeg := int_of_Real (seg ! i + 1),
                  st_i := int i + 1\<rparr>, i + 1))"

function validation_loop :: "sbic \<Rightarrow> array2d \<Rightarrow> state \<Rightarrow> nat \<Rightarrow> state" where
  "validation_loop sb features st i =
     (if int i < int (length (segmentation st)) - 1 then
        (case validation_body sb features st i of
           (st', i') \<Rightarrow> validation_loop sb features st' i')
      else st)"
  by pat_completeness auto
termination
  by (relation "measure (\<lambda>(sb, features, st, i). length (segmentation st) - i)")
     (auto simp: validation_body_def Let_def erase_def split: if_splits)

declare validation_loop.simps [simp del]

text \<open>
  The three passes, from the state in which \<^verbatim>\<open>compute\<close> finds the output vectors.
  \<^verbatim>\<open>i\<close> and \<^verbatim>\<open>dmin\<close> are not initialised in the source; the first coarse round, which
  always runs, assigns both before any read, so their values in the initial state do not
  matter.
\<close>

definition validation_pass :: "sbic \<Rightarrow> array2d \<Rightarrow> state \<Rightarrow> state" where
  "validation_pass sb features st =
     (if length (segmentation st) = 0 then st
      else validation_loop sb features (st\<lparr>st_currSeg := 0, st_i := 1\<rparr>) 1)"

definition fine_pass :: "sbic \<Rightarrow> array2d \<Rightarrow> state \<Rightarrow> state option" where
  "fine_pass sb features st = fine_loop sb features (st\<lparr>st_currSeg := 0\<rparr>, 0)"

definition coarse_pass :: "sbic \<Rightarrow> array2d \<Rightarrow> state \<Rightarrow> (error + state) option" where
  "coarse_pass sb features st = coarse_loop sb features (st\<lparr>st_currSeg := 0, st_endSeg := - 1\<rparr>)"

definition compute :: "sbic \<Rightarrow> array2d \<Rightarrow> state \<Rightarrow> (error + state) option" where
  "compute sb0 features st0 =
     (let nFeatures = dim1 features; nFrames = dim2 features in
      if nFrames < 2 then Some (Inl InvalidInput)
      else
        (let sb = sb0\<lparr>cp := 2 * real_of_int nFeatures\<rparr> in
         case coarse_pass sb features st0 of
           None \<Rightarrow> None
         | Some (Inl e) \<Rightarrow> Some (Inl e)
         | Some (Inr st1) \<Rightarrow>
             (case fine_pass sb features st1 of
                None \<Rightarrow> None
              | Some st2 \<Rightarrow> Some (Inr (validation_pass sb features st2)))))"

text \<open>The output vectors as a caller hands them over: empty.\<close>

definition fresh :: state where
  "fresh = \<lparr>st_currSeg = 0, st_endSeg = 0, st_i = 0, st_dmin = 0,
            segmentation = [], segValues = [], bicValues = []\<rparr>"

subsection \<open>The diagonal covariance, as the specification words it\<close>

text \<open>
  \<open>sumSq/d2 - (sum/d2)\<^sup>2\<close> for the feature \<open>i\<close>, with the sum and the sum of squares taken
  over the frames. This definition follows the specification, not the code; \<open>logDet\<close>
  above is the code, in exact arithmetic.
\<close>

definition diagCov :: "array2d \<Rightarrow> int \<Rightarrow> real" where
  "diagCov m i = (\<Sum>j\<in>{0..<dim2 m}. (elem m i j)\<^sup>2) / real_of_int (dim2 m)
                 - ((\<Sum>j\<in>{0..<dim2 m}. elem m i j) / real_of_int (dim2 m))\<^sup>2"

subsection \<open>Notions for the proofs, and inputs for the examples\<close>

text \<open>
  The mid positions that the search loop visits from \<open>shift\<close> on: \<open>shift\<close>, \<open>shift + inc\<close>,
  ... as long as \<open>shift < nFrames - inc\<close>. A description of the loop for the proofs.
\<close>

function positions :: "int \<Rightarrow> int \<Rightarrow> int \<Rightarrow> int list" where
  "positions nFrames inc shift =
     (if 1 \<le> inc \<and> shift < nFrames - inc then shift # positions nFrames inc (shift + inc) else [])"
  by pat_completeness auto
termination
  by (relation "measure (\<lambda>(nFrames, inc, shift). nat (nFrames - inc - shift))") auto

text \<open>
  The update of \<open>(seg, dmin)\<close> in one round of the search loop, for a differential \<open>f\<close>.
\<close>

definition pick :: "(int \<Rightarrow> real) \<Rightarrow> int \<times> real \<Rightarrow> int \<Rightarrow> int \<times> real" where
  "pick f sd shift = (if f shift < snd sd then (shift, f shift) else sd)"

text \<open>Inputs for the examples: a matrix of zeros, and an algorithm object without penalty.\<close>

definition zeros :: "int \<Rightarrow> int \<Rightarrow> array2d" where
  "zeros d1 d2 = \<lparr>dim1 = d1, dim2 = d2, elem = (\<lambda>i j. 0)\<rparr>"

definition sb_cpw0 :: sbic where
  "sb_cpw0 = \<lparr>size1 = 6, inc1 = 2, size2 = 4, inc2 = 2, cpw = 0, cp = 2\<rparr>"

text \<open>
  Inputs for the examples: one feature over four frames, \<open>0, 0, 0, 2\<close>, and an algorithm
  object with the penalty weight \<open>1\<close>.
\<close>

definition step4 :: array2d where
  "step4 = \<lparr>dim1 = 1, dim2 = 4, elem = (\<lambda>i j. if j = 3 then 2 else 0)\<rparr>"

definition sb_ex :: sbic where
  "sb_ex = \<lparr>size1 = 3, inc1 = 1, size2 = 4, inc2 = 1, cpw = 1, cp = 2\<rparr>"


text \<open>A state, written with its seven fields in order.\<close>

definition mk_state :: "int \<Rightarrow> int \<Rightarrow> int \<Rightarrow> real \<Rightarrow> real list \<Rightarrow> real list \<Rightarrow> real list \<Rightarrow> state" where
  "mk_state c e i dm seg vals bic =
     \<lparr>st_currSeg = c, st_endSeg = e, st_i = i, st_dmin = dm,
      segmentation = seg, segValues = vals, bicValues = bic\<rparr>"

text \<open>An input for the examples: one feature over five frames, \<open>0, 0, 1, 1, 1\<close>.\<close>

definition step5 :: array2d where
  "step5 = \<lparr>dim1 = 1, dim2 = 5, elem = (\<lambda>i j. if 2 \<le> j then 1 else 0)\<rparr>"

text \<open>
  An input for the examples: one feature over six frames, \<open>0, 0, 1, 2, 0, 1\<close>, and an
  algorithm object with windows of two frames and the penalty weight \<open>2\<close>.
\<close>

definition bumps6 :: array2d where
  "bumps6 = \<lparr>dim1 = 1, dim2 = 6,
              elem = (\<lambda>i j. if j = 2 \<or> j = 5 then 1 else if j = 3 then 2 else 0)\<rparr>"

definition sb_cpw2 :: sbic where
  "sb_cpw2 = \<lparr>size1 = 2, inc1 = 1, size2 = 2, inc2 = 1, cpw = 2, cp = 2\<rparr>"

text \<open>An input for the examples: one feature over nine frames, every entry \<open>457\<close>.\<close>

definition row457 :: array2d where
  "row457 = \<lparr>dim1 = 1, dim2 = 9, elem = (\<lambda>i j. 457)\<rparr>"

section \<open>The log-determinant\<close>

lemma foldl_add_sum_list:
  "foldl (\<lambda>acc j. acc + f j) (a::real) xs = a + sum_list (map f xs)"
  by (induction xs arbitrary: a) (simp_all add: add.assoc)

lemma upto_sum: "sum_list (map f [0..n - 1]) = (\<Sum>j\<in>{0..<n::int}. (f j :: real))"
proof -
  have "sum_list (map f [0..n - 1]) = sum f (set [0..n - 1])"
    by (rule sum_list_distinct_conv_sum_set) simp
  also have "set [0..n - 1] = {0..<n}" by auto
  finally show ?thesis .
qed

lemma mp_of_sum: "mp_of m i = (\<Sum>j\<in>{0..<dim2 m}. elem m i j)"
  by (simp add: mp_of_def foldl_add_sum_list upto_sum)

lemma vp_of_sum: "vp_of m i = (\<Sum>j\<in>{0..<dim2 m}. (elem m i j)\<^sup>2)"
  by (simp add: vp_of_def foldl_add_sum_list upto_sum power2_eq_square)

lemma diag_cov_eq:
  "vp_of m i * (1 / real_of_int (dim2 m))
     - mp_of m i * mp_of m i * ((1 / real_of_int (dim2 m)) * (1 / real_of_int (dim2 m)))
   = diagCov m i"
  unfolding diagCov_def mp_of_sum vp_of_sum power2_eq_square by (simp add: field_simps)

lemma logDet_sum:
  "logDet m = (\<Sum>i\<in>{0..<dim1 m}. if diagCov m i > 1 / 100000 then ln (diagCov m i) else - 5)"
proof -
  have "logDet m = foldl (\<lambda>logd j. logd + (if diagCov m j > 1 / 100000 then ln (diagCov m j) else - 5))
            0 [0..dim1 m - 1]"
    unfolding logDet_def Let_def diag_cov_eq ..
  then show ?thesis
    by (simp only: foldl_add_sum_list upto_sum add_0)
qed

lemma diagCov_const:
  assumes "1 \<le> dim2 m" and "\<forall>j. 0 \<le> j \<and> j < dim2 m \<longrightarrow> elem m i j = c"
  shows "diagCov m i = 0"
proof -
  have a: "(\<Sum>j\<in>{0..<dim2 m}. elem m i j) = real_of_int (dim2 m) * c"
    using assms by simp
  have b: "(\<Sum>j\<in>{0..<dim2 m}. (elem m i j)\<^sup>2) = real_of_int (dim2 m) * c\<^sup>2"
    using assms by simp
  show ?thesis using assms(1) by (simp add: diagCov_def a b)
qed

lemma logDet_const:
  assumes "1 \<le> dim2 m" and "0 \<le> dim1 m"
    and h: "\<forall>i j. 0 \<le> i \<and> i < dim1 m \<and> 0 \<le> j \<and> j < dim2 m \<longrightarrow> elem m i j = c"
  shows "logDet m = - 5 * real_of_int (dim1 m)"
proof -
  have "\<And>i. i \<in> {0..<dim1 m} \<Longrightarrow> diagCov m i = 0"
    using diagCov_const[OF assms(1), of _ c] h by auto
  then have "logDet m = (\<Sum>i\<in>{0..<dim1 m}. - 5)"
    unfolding logDet_sum by (intro sum.cong) simp_all
  then show ?thesis
    using assms(2) by simp
qed

subsection \<open>The log-determinant of a constant row, in single precision\<close>

lemma pow2_pos: "0 < pow2 e"
  by (simp add: pow2_def)

lemma pow2_powr: "pow2 e = 2 powr real_of_int e"
proof (cases "0 \<le> e")
  case True
  then have "2 powr real_of_int e = 2 powr real (nat e)" by simp
  also have "\<dots> = 2 ^ nat e" by (rule powr_realpow) simp
  finally show ?thesis using True by (simp add: pow2_def)
next
  case False
  then have "2 powr real_of_int e = 2 powr (- real (nat (- e)))" by simp
  also have "\<dots> = 1 / 2 powr real (nat (- e))" by (simp add: powr_minus divide_inverse)
  also have "2 powr real (nat (- e)) = 2 ^ nat (- e)" by (rule powr_realpow) simp
  finally show ?thesis using False by (simp add: pow2_def)
qed

lemma floor_log2:
  assumes "pow2 k \<le> \<bar>x\<bar>" and "\<bar>x\<bar> < pow2 (k + 1)"
  shows "\<lfloor>log 2 \<bar>x\<bar>\<rfloor> = k"
proof (rule floor_unique)
  have pos: "0 < \<bar>x\<bar>" using assms(1) pow2_pos[of k] by linarith
  show "real_of_int k \<le> log 2 \<bar>x\<bar>"
    using assms(1) pos by (simp add: le_log_iff pow2_powr)
  have "log 2 \<bar>x\<bar> < real_of_int (k + 1)"
    using assms(2) pos by (simp add: log_less_iff pow2_powr)
  then show "log 2 \<bar>x\<bar> < real_of_int k + 1" by simp
qed

lemma rnd_eval:
  assumes "pow2 k \<le> \<bar>x\<bar>" and "\<bar>x\<bar> < pow2 (k + 1)" and "emin \<le> k - (p - 1)"
  shows "rnd p emin x = real_of_int (round_even (x / pow2 (k - (p - 1)))) * pow2 (k - (p - 1))"
proof -
  have "x \<noteq> 0" using assms(1) pow2_pos[of k] by auto
  then show ?thesis
    using assms(3) by (simp add: rnd_def floor_log2[OF assms(1,2)] max_def Let_def)
qed

lemma fl32_eval:
  assumes "pow2 k \<le> \<bar>x\<bar>" and "\<bar>x\<bar> < pow2 (k + 1)" and "- 126 \<le> k"
  shows "fl32 x = real_of_int (round_even (x / pow2 (k - 23))) * pow2 (k - 23)"
  using rnd_eval[OF assms(1,2), of "- 149" 24] assms(3) by (simp add: fl32_def)

lemma fl64_eval:
  assumes "pow2 k \<le> \<bar>x\<bar>" and "\<bar>x\<bar> < pow2 (k + 1)" and "- 1022 \<le> k"
  shows "fl64 x = real_of_int (round_even (x / pow2 (k - 52))) * pow2 (k - 52)"
  using rnd_eval[OF assms(1,2), of "- 1074" 53] assms(3) by (simp add: fl64_def)

lemma round_even_of_int: "round_even (real_of_int n) = n"
  by (simp add: round_even_def)

lemma round_even_ge:
  assumes "real_of_int a \<le> t"
  shows "a \<le> round_even t"
proof -
  have "a \<le> \<lfloor>t\<rfloor>" using assms by (simp add: le_floor_iff)
  moreover have "\<lfloor>t\<rfloor> \<le> round_even t" by (simp add: round_even_def Let_def)
  ultimately show ?thesis by linarith
qed

lemma round_even_le:
  assumes "t \<le> real_of_int b"
  shows "round_even t \<le> b"
proof (cases "t - real_of_int \<lfloor>t\<rfloor> < 1 / 2")
  case True
  then have "round_even t = \<lfloor>t\<rfloor>" by (simp add: round_even_def)
  then show ?thesis using assms by (simp add: floor_le_iff)
next
  case False
  then have "real_of_int \<lfloor>t\<rfloor> < t" by linarith
  then have "real_of_int \<lfloor>t\<rfloor> < real_of_int b" using assms by linarith
  then have "\<lfloor>t\<rfloor> + 1 \<le> b" by linarith
  moreover have "round_even t \<le> \<lfloor>t\<rfloor> + 1" by (simp add: round_even_def Let_def)
  ultimately show ?thesis by linarith
qed

text \<open>An integer below \<open>2\<^sup>2\<^sup>4\<close> is a single-precision number.\<close>

lemma fl32_of_int:
  assumes "\<bar>n\<bar> < 16777216"
  shows "fl32 (real_of_int n) = real_of_int n"
proof (cases "n = 0")
  case True
  then show ?thesis by (simp add: fl32_def rnd_def)
next
  case False
  define k where "k = \<lfloor>log 2 \<bar>real_of_int n\<bar>\<rfloor>"
  have one: "1 \<le> \<bar>real_of_int n\<bar>" using False by (simp flip: of_int_abs)
  have "0 \<le> log 2 \<bar>real_of_int n\<bar>" using one by simp
  then have k0: "0 \<le> k" by (simp add: k_def)
  have "\<bar>real_of_int n\<bar> < 2 powr 24" using assms by (simp flip: of_int_abs)
  then have "log 2 \<bar>real_of_int n\<bar> < 24" using one by (simp add: log_less_iff)
  then have k23: "k \<le> 23" unfolding k_def by (simp add: floor_le_iff)
  define m where "m = nat (23 - k)"
  have e: "max (k - 23) (- 149) = - int m" using k0 k23 by (simp add: m_def max_def)
  have p: "pow2 (- int m) = 1 / 2 ^ m"
    by (cases "m = 0") (simp_all add: pow2_def)
  have "real_of_int n * 2 ^ m = real_of_int (n * 2 ^ m)" by simp
  then have r: "round_even (real_of_int n * 2 ^ m) = n * 2 ^ m"
    by (simp only: round_even_of_int)
  show ?thesis
    using False unfolding fl32_def rnd_def k_def[symmetric] Let_def
    by (simp add: e[simplified] r p)
qed

lemma fl32_numeral [simp]:
  "(numeral n :: int) < 16777216 \<Longrightarrow> fl32 (numeral n) = numeral n"
  using fl32_of_int[of "numeral n"] by simp

lemma fl32_0 [simp]: "fl32 0 = 0"
  by (simp add: fl32_def rnd_def)

lemma mp_row457: "mp_f32 row457 0 = 4113"
  by (simp add: mp_f32_def row457_def upto_rec1)

lemma vp_row457: "vp_f32 row457 0 = 1879641"
  by (simp add: vp_f32_def row457_def upto_rec1)

lemma z_row457: "fl32 (fl64 (1 / fl32 (real_of_int (dim2 row457)))) = 14913081 / 134217728"
proof -
  have "fl64 (1 / 9) = 2001599834386887 / 18014398509481984"
    using fl64_eval[of "- 4" "1 / 9"] by (simp add: pow2_def round_even_def)
  moreover have "fl32 (2001599834386887 / 18014398509481984) = 14913081 / 134217728"
    using fl32_eval[of "- 4" "2001599834386887 / 18014398509481984"]
    by (simp add: pow2_def round_even_def)
  moreover have "fl32 (real_of_int (dim2 row457)) = 9" by (simp add: row457_def)
  ultimately show ?thesis by (simp only:)
qed

lemma zz_row457: "fl32 ((14913081 / 134217728) * (14913081 / 134217728)) = 1657009 / 134217728"
  using fl32_eval[of "- 7" "(14913081 / 134217728) * (14913081 / 134217728)"]
  by (simp add: pow2_def round_even_def)

lemma a_row457: "fl32 (1879641 * (14913081 / 134217728)) = 208849"
  using fl32_eval[of 17 "1879641 * (14913081 / 134217728)"]
  by (simp add: pow2_def round_even_def)

lemma b_row457: "fl32 (4113 * 4113) = 16916768"
  using fl32_eval[of 24 "4113 * 4113"]
  by (simp add: pow2_def round_even_def)

lemma c_row457: "fl32 (16916768 * (1657009 / 134217728)) = 13366335 / 64"
  using fl32_eval[of 17 "16916768 * (1657009 / 134217728)"]
  by (simp add: pow2_def round_even_def)

lemma d_row457: "fl32 (208849 - 13366335 / 64) = 1 / 64"
  using fl32_eval[of "- 6" "208849 - 13366335 / 64"]
  by (simp add: pow2_def round_even_def)

lemma diag_cov_row457: "diag_cov_f32 row457 0 = 1 / 64"
  unfolding diag_cov_f32_def Let_def z_row457 zz_row457 mp_row457 vp_row457
    a_row457 b_row457 c_row457 d_row457 ..

lemma threshold_double: "fl64 (1 / 100000) = 5902958103587057 / 590295810358705651712"
  using fl64_eval[of "- 17" "1 / 100000"]
  by (simp add: pow2_def round_even_def)


lemma ln2_bounds: "2 / 3 \<le> ln (2 :: real)" "ln (2 :: real) \<le> 3 / 4"
proof -
  have "exp (1 / 12 :: real) \<le> 1 + 1 / 12 + (1 / 12)\<^sup>2"
    by (rule exp_bound) simp_all
  then have "exp (1 / 12 :: real) \<le> 157 / 144" by (simp add: power2_eq_square)
  then have "exp (1 / 12 :: real) ^ 8 \<le> (157 / 144) ^ 8"
    by (intro power_mono) simp_all
  also have "(157 / 144 :: real) ^ 8 \<le> 2" by (simp add: power_divide)
  finally have "exp (1 / 12 :: real) ^ 8 \<le> 2" .
  moreover have "exp (2 / 3 :: real) = exp (1 / 12) ^ 8"
    using exp_of_nat_mult[of 8 "1 / 12 :: real"] by simp
  ultimately have "exp (2 / 3 :: real) \<le> 2" by (simp only:)
  then show "2 / 3 \<le> ln (2 :: real)"
    using ln_ge_iff[of "2 :: real" "2 / 3"] by (simp only: zero_less_numeral simp_thms)
  have "1 + 3 / 4 + (3 / 4)\<^sup>2 / 2 \<le> exp (3 / 4 :: real)"
    by (rule exp_lower_Taylor_quadratic) simp
  then have "2 \<le> exp (3 / 4 :: real)" by (simp add: power2_eq_square)
  then have "ln (2 :: real) \<le> ln (exp (3 / 4))" by (subst ln_le_cancel_iff) simp_all
  then show "ln (2 :: real) \<le> 3 / 4" by simp
qed

lemma ln_64th: "ln (1 / 64 :: real) = - 6 * ln 2"
proof -
  have "ln (64 :: real) = ln (2 ^ 6)" by simp
  also have "\<dots> = 6 * ln 2" by (subst ln_realpow) simp_all
  finally show ?thesis by (simp add: ln_div)
qed

lemma logf_64th:
  "logf (1 / 64) = real_of_int (round_even (ln (1 / 64) * 2097152)) / 2097152"
  "- 9437184 \<le> round_even (ln (1 / 64) * 2097152)"
  "round_even (ln (1 / 64) * 2097152) \<le> - 8388608"
proof -
  have b: "- 9 / 2 \<le> ln (1 / 64 :: real)" "ln (1 / 64 :: real) \<le> - 4"
    using ln2_bounds unfolding ln_64th by simp_all
  then have "pow2 2 \<le> \<bar>ln (1 / 64 :: real)\<bar>" "\<bar>ln (1 / 64 :: real)\<bar> < pow2 (2 + 1)"
    by (simp_all add: pow2_def)
  from fl32_eval[OF this] show "logf (1 / 64) = real_of_int (round_even (ln (1 / 64) * 2097152)) / 2097152"
    by (simp add: logf_def pow2_def)
  show "- 9437184 \<le> round_even (ln (1 / 64) * 2097152)"
    by (rule round_even_ge) (use b in simp)
  show "round_even (ln (1 / 64) * 2097152) \<le> - 8388608"
    by (rule round_even_le) (use b in simp)
qed

lemma logf_64th_bounds: "- 9 / 2 \<le> logf (1 / 64)" "logf (1 / 64) \<le> - 4"
proof -
  have "real_of_int (- 9437184) \<le> real_of_int (round_even (ln (1 / 64) * 2097152))"
    using logf_64th(2) by (simp only: of_int_le_iff)
  then show "- 9 / 2 \<le> logf (1 / 64)" by (simp add: logf_64th(1))
  have "real_of_int (round_even (ln (1 / 64) * 2097152)) \<le> real_of_int (- 8388608)"
    using logf_64th(3) by (simp only: of_int_le_iff)
  then show "logf (1 / 64) \<le> - 4" by (simp add: logf_64th(1))
qed

lemma fl32_logf_64th: "fl32 (logf (1 / 64)) = logf (1 / 64)"
proof -
  have "pow2 2 \<le> \<bar>logf (1 / 64)\<bar>" "\<bar>logf (1 / 64)\<bar> < pow2 (2 + 1)"
    using logf_64th_bounds by (simp_all add: pow2_def)
  from fl32_eval[OF this]
  have "fl32 (logf (1 / 64)) = real_of_int (round_even (logf (1 / 64) * 2097152)) / 2097152"
    by (simp add: pow2_def)
  also have "logf (1 / 64) * 2097152 = real_of_int (round_even (ln (1 / 64) * 2097152))"
    by (simp add: logf_64th(1))
  also have "round_even (real_of_int (round_even (ln (1 / 64) * 2097152)))
             = round_even (ln (1 / 64) * 2097152)"
    by (rule round_even_of_int)
  finally show ?thesis by (simp add: logf_64th(1))
qed

lemma logDet_f32_row457: "logDet_f32 row457 = logf (1 / 64)"
proof -
  have u: "[0..dim1 row457 - 1] = [0]" by (simp add: row457_def upto_rec1)
  show ?thesis
    unfolding logDet_f32_def u by (simp add: diag_cov_row457 threshold_double fl32_logf_64th)
qed

text \<open>
  Claim C2 says that \<^verbatim>\<open>logDet\<close> returns \<open>-5 * d1\<close> on a sub-matrix whose entries are all
  identical, and the comment in the source agrees that constant features should give a
  covariance of zero. In the single-precision arithmetic of the code this fails. On one
  feature over nine frames, every entry \<open>457\<close>, the sums are exact, \<open>mp = 4113\<close> and
  \<open>vp = 1879641\<close>, but the square \<open>4113\<^sup>2 = 16916769\<close> is rounded to \<open>16916768\<close> and
  the diagonal covariance comes out as \<open>1/64\<close>, above the threshold \<open>1e-5\<close>: the code
  returns the logarithm of \<open>1/64\<close>, about \<open>-4.16\<close>, and not the floor \<open>-5\<close>. In exact
  arithmetic the covariance of this row is \<open>0\<close> and the value is \<open>-5\<close>.
\<close>

theorem logDet_f32_constant_row:
  "(\<forall>i j. elem row457 i j = 457)
   \<and> diag_cov_f32 row457 0 = 1 / 64
   \<and> logDet_f32 row457 = logf (1 / 64)
   \<and> - 9 / 2 \<le> logDet_f32 row457
   \<and> - 5 * real_of_int (dim1 row457) < logDet_f32 row457
   \<and> logDet row457 = - 5"
proof -
  have "logDet row457 = - 5 * real_of_int (dim1 row457)"
    by (rule logDet_const[where c = 457]) (simp_all add: row457_def)
  then have "logDet row457 = - 5" by (simp add: row457_def)
  then show ?thesis
    using logf_64th_bounds
    by (simp add: logDet_f32_row457 diag_cov_row457) (simp add: row457_def)
qed

declare positions.simps [simp del]

lemma search_loop_positions:
  "1 \<le> inc \<Longrightarrow>
   \<exists>shift'. search_loop m inc s pen (shift, seg, dmin, d) =
     Some (shift',
           fst (foldl (pick (dBicValue_at m s pen)) (seg, dmin) (positions (dim2 m) inc shift)),
           snd (foldl (pick (dBicValue_at m s pen)) (seg, dmin) (positions (dim2 m) inc shift)),
           d @ map (dBicValue_at m s pen) (positions (dim2 m) inc shift))"
proof (induction "dim2 m" inc shift arbitrary: seg dmin d rule: positions.induct)
  case (1 inc shift)
  show ?case
  proof (cases "shift < dim2 m - inc")
    case True
    let ?v = "dBicValue_at m s pen shift"
    from "1.hyps"[of "if ?v < dmin then shift else seg" "if ?v < dmin then ?v else dmin" "d @ [?v]"]
      True "1.prems"
    obtain shift' where
      "search_loop m inc s pen (shift + inc, (if ?v < dmin then shift else seg),
          (if ?v < dmin then ?v else dmin), d @ [?v]) =
       Some (shift',
           fst (foldl (pick (dBicValue_at m s pen)) ((if ?v < dmin then shift else seg), (if ?v < dmin then ?v else dmin)) (positions (dim2 m) inc (shift + inc))),
           snd (foldl (pick (dBicValue_at m s pen)) ((if ?v < dmin then shift else seg), (if ?v < dmin then ?v else dmin)) (positions (dim2 m) inc (shift + inc))),
           (d @ [?v]) @ map (dBicValue_at m s pen) (positions (dim2 m) inc (shift + inc)))"
      by blast
    moreover have "positions (dim2 m) inc shift = shift # positions (dim2 m) inc (shift + inc)"
      using True "1.prems" by (subst positions.simps) simp
    moreover have "pick (dBicValue_at m s pen) (seg, dmin) shift
        = ((if ?v < dmin then shift else seg), (if ?v < dmin then ?v else dmin))"
      by (simp add: pick_def)
    ultimately show ?thesis
      using True by (subst search_loop.simps) (simp add: Let_def)
  next
    case False
    then have "positions (dim2 m) inc shift = []"
      by (subst positions.simps) simp
    then show ?thesis using False
      by (subst search_loop.simps) simp
  qed
qed

lemma positions_nth:
  "1 \<le> inc \<Longrightarrow> (k < length (positions n inc shift) \<longleftrightarrow> shift + int k * inc < n - inc)
     \<and> (k < length (positions n inc shift) \<longrightarrow> positions n inc shift ! k = shift + int k * inc)"
proof (induction n inc shift arbitrary: k rule: positions.induct)
  case (1 n inc shift)
  show ?case
  proof (cases "shift < n - inc")
    case True
    then have eq: "positions n inc shift = shift # positions n inc (shift + inc)"
      using "1.prems" by (subst positions.simps) simp
    show ?thesis
    proof (cases k)
      case 0
      then show ?thesis using True eq by simp
    next
      case (Suc k')
      have e: "shift + inc + int k' * inc = shift + int k * inc"
        using Suc by (simp add: algebra_simps)
      have "(k' < length (positions n inc (shift + inc))) = (shift + int k * inc < n - inc)"
        and "k' < length (positions n inc (shift + inc)) \<longrightarrow>
             positions n inc (shift + inc) ! k' = shift + int k * inc"
        using "1.IH"[of k'] True "1.prems" unfolding e by blast+
      then show ?thesis
        unfolding eq Suc by simp
    qed
  next
    case False
    then have eq: "positions n inc shift = []"
      by (subst positions.simps) simp
    have "0 \<le> int k * inc" using "1.prems" by simp
    then have "\<not> shift + int k * inc < n - inc" using False by linarith
    then show ?thesis using eq by simp
  qed
qed

lemma foldl_pick:
  "let r = foldl (pick f) (seg0, dmin0) ps in
     (\<forall>p\<in>set ps. snd r \<le> f p) \<and> snd r \<le> dmin0 \<and>
     ((r = (seg0, dmin0)) \<or>
      (\<exists>k<length ps. fst r = ps ! k \<and> snd r = f (ps ! k) \<and> snd r < dmin0
                       \<and> (\<forall>j<k. snd r < f (ps ! j))))"
proof (induction ps rule: rev_induct)
  case Nil
  then show ?case by simp
next
  case (snoc p ps)
  define r where "r = foldl (pick f) (seg0, dmin0) ps"
  have ih1: "\<forall>q\<in>set ps. snd r \<le> f q" and ih2: "snd r \<le> dmin0"
    and ih3: "(r = (seg0, dmin0)) \<or>
      (\<exists>k<length ps. fst r = ps ! k \<and> snd r = f (ps ! k) \<and> snd r < dmin0
                       \<and> (\<forall>j<k. snd r < f (ps ! j)))"
    using snoc unfolding r_def Let_def by blast+
  have step: "foldl (pick f) (seg0, dmin0) (ps @ [p]) = pick f r p"
    by (simp add: r_def)
  show ?case
  proof (cases "f p < snd r")
    case True
    then have pr: "pick f r p = (p, f p)" by (simp add: pick_def)
    have a: "\<forall>q\<in>set (ps @ [p]). f p \<le> f q" using ih1 True by auto
    have b: "f p < dmin0" using ih2 True by simp
    have c: "\<forall>j<length ps. f p < f ((ps @ [p]) ! j)"
    proof (intro allI impI)
      fix j assume j: "j < length ps"
      then have "ps ! j \<in> set ps" by simp
      then have "snd r \<le> f (ps ! j)" using ih1 by blast
      then show "f p < f ((ps @ [p]) ! j)" using True j by (simp add: nth_append)
    qed
    have "\<exists>k<length (ps @ [p]). p = (ps @ [p]) ! k \<and> f p = f ((ps @ [p]) ! k) \<and> f p < dmin0
            \<and> (\<forall>j<k. f p < f ((ps @ [p]) ! j))"
      using b c by (intro exI[of _ "length ps"]) simp
    then show ?thesis
      unfolding Let_def step pr using a b by simp
  next
    case False
    then have pr: "pick f r p = r" by (simp add: pick_def)
    have a: "\<forall>q\<in>set (ps @ [p]). snd r \<le> f q" using ih1 False by auto
    have c: "(r = (seg0, dmin0)) \<or>
      (\<exists>k<length (ps @ [p]). fst r = (ps @ [p]) ! k \<and> snd r = f ((ps @ [p]) ! k) \<and> snd r < dmin0
                       \<and> (\<forall>j<k. snd r < f ((ps @ [p]) ! j)))"
    proof (rule disjE[OF ih3])
      assume "r = (seg0, dmin0)" then show ?thesis by simp
    next
      assume "\<exists>k<length ps. fst r = ps ! k \<and> snd r = f (ps ! k) \<and> snd r < dmin0
                       \<and> (\<forall>j<k. snd r < f (ps ! j))"
      then obtain k where k: "k < length ps" "fst r = ps ! k" "snd r = f (ps ! k)" "snd r < dmin0"
         "\<forall>j<k. snd r < f (ps ! j)" by blast
      have "k < length (ps @ [p]) \<and> fst r = (ps @ [p]) ! k \<and> snd r = f ((ps @ [p]) ! k) \<and> snd r < dmin0
                       \<and> (\<forall>j<k. snd r < f ((ps @ [p]) ! j))"
        using k by (simp add: nth_append)
      then show ?thesis by blast
    qed
    show ?thesis
      unfolding Let_def step pr using a ih2 c by simp
  qed
qed

section \<open>The change search\<close>

lemma bicChangeSearch_eq:
  assumes "1 \<le> inc"
  shows "bicChangeSearch sb m inc current =
     Some (let f = dBicValue_at m (logDet m) (cpw sb * cp sb * ln (real_of_int (dim2 m)));
               ps = positions (dim2 m) inc (inc - 1);
               r = foldl (pick f) (0, Real_max) ps
           in (if snd r > 0 then 0 else current + fst r, map f ps, snd r))"
proof -
  obtain shift' where
    "search_loop m inc (logDet m) (cpw sb * cp sb * ln (real_of_int (dim2 m))) (inc - 1, 0, Real_max, [])
      = Some (shift',
           fst (foldl (pick (dBicValue_at m (logDet m) (cpw sb * cp sb * ln (real_of_int (dim2 m))))) (0, Real_max) (positions (dim2 m) inc (inc - 1))),
           snd (foldl (pick (dBicValue_at m (logDet m) (cpw sb * cp sb * ln (real_of_int (dim2 m))))) (0, Real_max) (positions (dim2 m) inc (inc - 1))),
           [] @ map (dBicValue_at m (logDet m) (cpw sb * cp sb * ln (real_of_int (dim2 m)))) (positions (dim2 m) inc (inc - 1)))"
    using search_loop_positions[OF assms] by blast
  then show ?thesis
    by (simp add: bicChangeSearch_def Let_def)
qed

lemma Real_max_pos: "0 < Real_max"
  by (simp add: Real_max_def)

text \<open>
  Claim C3, amended. For \<open>inc \<ge> 1\<close> the search returns. It samples the differential at the
  positions \<open>inc - 1 + k * inc\<close> below \<open>nFrames - inc\<close>, and \<open>dmin\<close> is a lower bound of all
  samples. It returns the offset \<open>0\<close> when \<open>dmin > 0\<close>, and when \<open>dmin \<le> 0\<close> (zero included) it
  returns \<open>current\<close> plus the first scanned position that attains \<open>dmin\<close>.
\<close>

theorem bicChangeSearch_result:
  assumes "1 \<le> inc"
  shows "\<exists>first d dmin. bicChangeSearch sb matrix inc current = Some (first, d, dmin)
     \<and> (\<forall>k. k < length d \<longleftrightarrow> inc - 1 + int k * inc < dim2 matrix - inc)
     \<and> (\<forall>k<length d. d ! k = dBicValue_at matrix (logDet matrix)
                (cpw sb * cp sb * ln (real_of_int (dim2 matrix))) (inc - 1 + int k * inc))
     \<and> (\<forall>k<length d. dmin \<le> d ! k) \<and> dmin \<le> Real_max
     \<and> (0 < dmin \<longrightarrow> first = 0)
     \<and> (dmin \<le> 0 \<longrightarrow> (\<exists>k<length d. d ! k = dmin \<and> (\<forall>j<k. dmin < d ! j)
                            \<and> first = current + (inc - 1 + int k * inc)))"
proof -
  define f where "f = dBicValue_at matrix (logDet matrix) (cpw sb * cp sb * ln (real_of_int (dim2 matrix)))"
  define ps where "ps = positions (dim2 matrix) inc (inc - 1)"
  define r where "r = foldl (pick f) (0, Real_max) ps"
  define first where "first = (if snd r > 0 then 0 else current + fst r)"
  have res: "bicChangeSearch sb matrix inc current = Some (first, map f ps, snd r)"
    using bicChangeSearch_eq[OF assms, of sb matrix current]
    by (simp add: Let_def f_def ps_def r_def first_def)
  have len: "\<forall>k. k < length (map f ps) \<longleftrightarrow> inc - 1 + int k * inc < dim2 matrix - inc"
    using positions_nth[OF assms, of _ "dim2 matrix" "inc - 1"] by (simp add: ps_def)
  have nth: "\<forall>k<length ps. ps ! k = inc - 1 + int k * inc"
    using positions_nth[OF assms, of _ "dim2 matrix" "inc - 1"] by (simp add: ps_def)
  have vals: "\<forall>k<length (map f ps). map f ps ! k = f (inc - 1 + int k * inc)"
    using nth by simp
  from foldl_pick[of f 0 Real_max ps]
  have p1: "\<forall>p\<in>set ps. snd r \<le> f p" and p2: "snd r \<le> Real_max"
    and p3: "r = (0, Real_max) \<or>
      (\<exists>k<length ps. fst r = ps ! k \<and> snd r = f (ps ! k) \<and> snd r < Real_max
                       \<and> (\<forall>j<k. snd r < f (ps ! j)))"
    unfolding Let_def r_def by blast+
  have lower: "\<forall>k<length (map f ps). snd r \<le> map f ps ! k"
    using p1 by simp
  have neg: "snd r \<le> 0 \<longrightarrow> (\<exists>k<length (map f ps). map f ps ! k = snd r
        \<and> (\<forall>j<k. snd r < map f ps ! j) \<and> first = current + (inc - 1 + int k * inc))"
  proof
    assume le: "snd r \<le> 0"
    then have "r \<noteq> (0, Real_max)" using Real_max_pos by auto
    then obtain k where k: "k < length ps" "fst r = ps ! k" "snd r = f (ps ! k)"
        "\<forall>j<k. snd r < f (ps ! j)"
      using p3 by blast
    have "first = current + (inc - 1 + int k * inc)"
      using le k nth by (simp add: first_def)
    moreover have "\<forall>j<k. snd r < map f ps ! j" using k by simp
    ultimately show "\<exists>k<length (map f ps). map f ps ! k = snd r
        \<and> (\<forall>j<k. snd r < map f ps ! j) \<and> first = current + (inc - 1 + int k * inc)"
      using k by (intro exI[of _ k]) simp
  qed
  have pos: "0 < snd r \<longrightarrow> first = 0" by (simp add: first_def)
  show ?thesis
    unfolding f_def[symmetric]
    using res len vals lower p2 pos neg by blast
qed

lemma subarray_dims:
  "0 \<le> dim1 m - 1 \<Longrightarrow> j0 \<le> j1 \<Longrightarrow>
   dim1 (subarray m 0 (dim1 m - 1) j0 j1) = dim1 m \<and>
   dim2 (subarray m 0 (dim1 m - 1) j0 j1) = j1 - j0 + 1 \<and>
   elem (subarray m 0 (dim1 m - 1) j0 j1) = (\<lambda>i j. elem m i (j + j0))"
  by (simp add: subarray_def Let_def)

lemma logDet_zeros_sub:
  assumes "1 \<le> d1" "j0 \<le> j1"
  shows "logDet (subarray (zeros d1 d2) 0 (d1 - 1) j0 j1) = - 5 * real_of_int d1"
proof -
  let ?w = "subarray (zeros d1 d2) 0 (d1 - 1) j0 j1"
  have "dim1 ?w = d1" "dim2 ?w = j1 - j0 + 1" "elem ?w = (\<lambda>i j. 0)"
    using assms by (simp_all add: subarray_def Let_def zeros_def)
  then show ?thesis
    using logDet_const[of ?w 0] assms by simp
qed

lemma logDet_zeros:
  assumes "1 \<le> d1" "1 \<le> d2"
  shows "logDet (zeros d1 d2) = - 5 * real_of_int d1"
  using logDet_const[of "zeros d1 d2" 0] assms by (simp add: zeros_def)

lemma dBicValue_at_zeros:
  assumes "1 \<le> d1" "0 \<le> shift" "shift + 1 \<le> d2 - 1"
  shows "dBicValue_at (zeros d1 d2) (- 5 * real_of_int d1) pen shift = 0.5 * pen"
proof -
  have a: "dim1 (zeros d1 d2) = d1" "dim2 (zeros d1 d2) = d2" by (simp_all add: zeros_def)
  show ?thesis
    unfolding dBicValue_at_def Let_def a
    using logDet_zeros_sub[OF assms(1), of 0 shift d2] logDet_zeros_sub[OF assms(1), of "shift + 1" "d2 - 1" d2] assms
    by (simp add: algebra_simps)
qed

lemma search_zeros_4:
  "bicChangeSearch sb_cpw0 (zeros 1 4) 2 0 = Some (1, [0], 0)"
proof -
  have ps: "positions 4 2 1 = [1]"
    by (simp add: positions.simps)
  have v: "dBicValue_at (zeros 1 4) (- 5) 0 1 = 0"
    using dBicValue_at_zeros[of 1 1 4 0] by simp
  have ld: "logDet (zeros 1 4) = - 5" using logDet_zeros[of 1 4] by simp
  have d2: "dim2 (zeros 1 4) = 4" by (simp add: zeros_def)
  show ?thesis
    using bicChangeSearch_eq[of 2 sb_cpw0 "zeros 1 4" 0]
    by (simp add: Let_def ps v ld d2 sb_cpw0_def pick_def Real_max_def)
qed

text \<open>
  Claim C3 as stated fails where \<open>dmin = 0\<close>: on a window of zeros, without penalty
  (\<open>cpw = 0\<close>), every differential is \<open>0\<close>, so \<open>dmin = 0\<close> is not negative, and the search
  returns the position \<open>1\<close>, not the offset \<open>0\<close>: the test of the source is \<^verbatim>\<open>dmin > 0\<close>.
\<close>

theorem bicChangeSearch_zero_dmin_counterexample:
  "bicChangeSearch sb_cpw0 (zeros 1 4) 2 0 = Some (1, [0], 0) \<and> \<not> (0::real) < 0 \<and> (1::int) \<noteq> 0"
  using search_zeros_4 by simp

theorem bicChangeSearch_result_witness:
  "(1::int) \<le> 2 \<and> bicChangeSearch sb_cpw0 (zeros 1 4) 2 0 = Some (1, [0], 0)
   \<and> (\<exists>k<length [0::real]. [0::real] ! k = 0 \<and> (1::int) = 0 + (2 - 1 + int k * 2))"
  using bicChangeSearch_result[of 2 sb_cpw0 "zeros 1 4" 0] search_zeros_4 by auto

section \<open>The differential of the validation pass\<close>

lemma logDet_step4_first: "logDet (subarray step4 0 0 0 1) = - 5"
  by (simp add: logDet_def mp_of_def vp_of_def subarray_def Let_def step4_def upto_rec1)

lemma logDet_step4_second: "logDet (subarray step4 0 0 2 3) = 0"
  by (simp add: logDet_def mp_of_def vp_of_def subarray_def Let_def step4_def upto_rec1)

lemma search_step4_d:
  "\<exists>first d dmin. bicChangeSearch sb_ex step4 1 0 = Some (first, d, dmin) \<and> 1 < length d \<and>
     d ! 1 = dBicValue_at step4 (logDet step4) (cpw sb_ex * cp sb_ex * ln (real_of_int (dim2 step4))) 1"
proof -
  have ps: "positions 4 1 0 = [0, 1, 2]"
    by (simp add: positions.simps)
  have d2: "dim2 step4 = 4" by (simp add: step4_def)
  show ?thesis
    using bicChangeSearch_eq[of 1 sb_ex step4 0]
    by (simp add: Let_def ps d2)
qed

text \<open>
  Claim C1, at a failing input. On the window \<open>0, 0, 0, 2\<close> and the split position \<open>1\<close> the
  differential of \<open>delta_bic\<close> is not the one that the search computes at that position
  (the entry \<open>d ! 1\<close> of its curve, for the step \<open>1\<close>): they differ by \<open>5/2\<close>. Both take the
  halves \<open>0..1\<close> and \<open>2..3\<close>, of two frames each; the search weights their log-determinants by
  \<open>n1 = 2\<close> and \<open>n2 = 2\<close>, \<open>delta_bic\<close> by \<open>segPoint = 1\<close> and \<open>nFrames - segPoint = 3\<close>.
\<close>

theorem delta_bic_differs_from_search:
  "\<exists>first d dmin. bicChangeSearch sb_ex step4 1 0 = Some (first, d, dmin) \<and> 1 < length d \<and>
     delta_bic sb_ex step4 1 - d ! 1 = 5 / 2"
proof -
  have d: "dim1 step4 = 1" "dim2 step4 = 4" by (simp_all add: step4_def)
  have i: "int_of_Real 1 = 1" "int_of_Real (1 + 1) = 2" by (simp_all add: int_of_Real_def)
  have "delta_bic sb_ex step4 1
     - dBicValue_at step4 (logDet step4) (cpw sb_ex * cp sb_ex * ln (real_of_int (dim2 step4))) 1 = 5 / 2"
    unfolding delta_bic_def dBicValue_at_def Let_def d i
    using logDet_step4_first logDet_step4_second by (simp add: sb_ex_def field_simps)
  then show ?thesis
    using search_step4_d by auto
qed

section \<open>The input check of \<open>compute\<close>\<close>

lemma push_back_all_error: "push_back_all t ks b = Inl e \<Longrightarrow> e = OutOfRange"
  by (induction t ks b rule: push_back_all.induct) (auto split: if_splits)

lemma coarse_store_error: "coarse_store sb n st i t dm = Inl e \<Longrightarrow> e = OutOfRange"
  unfolding coarse_store_def Let_def
  by (auto split: if_splits sum.splits dest: push_back_all_error)

lemma coarse_body_error: "coarse_body sb f st = Some (Inl e) \<Longrightarrow> e = OutOfRange"
  unfolding coarse_body_def Let_def
  by (auto split: option.splits dest: coarse_store_error)

lemma coarse_loop_rule:
  assumes run: "coarse_loop sb f st = Some y" and init: "I st"
    and step: "\<And>st st1. I st \<Longrightarrow> st_endSeg st < dim2 f - 1 \<Longrightarrow>
                 coarse_body sb f st = Some (Inr st1) \<Longrightarrow> I st1"
  shows "(\<forall>e. y = Inl e \<longrightarrow> e = OutOfRange)
       \<and> (\<forall>st'. y = Inr st' \<longrightarrow> I st' \<and> \<not> st_endSeg st' < dim2 f - 1)"
proof -
  have "sb = sb \<longrightarrow> f = f \<longrightarrow> I st \<longrightarrow> (\<forall>e. y = Inl e \<longrightarrow> e = OutOfRange)
       \<and> (\<forall>st'. y = Inr st' \<longrightarrow> I st' \<and> \<not> st_endSeg st' < dim2 f - 1)"
  proof (rule coarse_loop.raw_induct[where P = "\<lambda>sb' f' st y. sb' = sb \<longrightarrow> f' = f \<longrightarrow> I st \<longrightarrow>
       (\<forall>e. y = Inl e \<longrightarrow> e = OutOfRange)
       \<and> (\<forall>st'. y = Inr st' \<longrightarrow> I st' \<and> \<not> st_endSeg st' < dim2 f - 1)", OF _ run])
    fix cl sb' f' st y
    assume ih: "\<And>sb' f' st y. cl sb' f' st = Some y \<Longrightarrow> sb' = sb \<longrightarrow> f' = f \<longrightarrow> I st \<longrightarrow>
         (\<forall>e. y = Inl e \<longrightarrow> e = OutOfRange)
         \<and> (\<forall>st'. y = Inr st' \<longrightarrow> I st' \<and> \<not> st_endSeg st' < dim2 f - 1)"
      and eq: "(if st_endSeg st < dim2 f' - 1 then
                  (case coarse_body sb' f' st of None \<Rightarrow> None
                   | Some (Inl e) \<Rightarrow> Some (Inl e)
                   | Some (Inr st') \<Rightarrow> cl sb' f' st')
                else Some (Inr st)) = Some y"
    show "sb' = sb \<longrightarrow> f' = f \<longrightarrow> I st \<longrightarrow>
         (\<forall>e. y = Inl e \<longrightarrow> e = OutOfRange)
         \<and> (\<forall>st'. y = Inr st' \<longrightarrow> I st' \<and> \<not> st_endSeg st' < dim2 f - 1)"
    proof (intro impI)
      assume s: "sb' = sb" and f: "f' = f" and i: "I st"
      show "(\<forall>e. y = Inl e \<longrightarrow> e = OutOfRange)
         \<and> (\<forall>st'. y = Inr st' \<longrightarrow> I st' \<and> \<not> st_endSeg st' < dim2 f - 1)"
      proof (cases "st_endSeg st < dim2 f - 1")
        case False
        then show ?thesis using eq i f by auto
      next
        case True
        show ?thesis
        proof (cases "coarse_body sb f st")
          case None
          then show ?thesis using eq True s f by simp
        next
          case (Some r)
          show ?thesis
          proof (cases r)
            case (Inl e)
            then have "e = OutOfRange" using Some coarse_body_error by blast
            then show ?thesis using eq True s f Some Inl by auto
          next
            case (Inr st1)
            then have "I st1" using step[OF i True] Some by simp
            moreover have "cl sb f st1 = Some y" using eq True s f Some Inr by simp
            ultimately show ?thesis using ih by blast
          qed
        qed
      qed
    qed
  qed
  then show ?thesis using init by blast
qed

lemma coarse_loop_error: "coarse_loop sb f st = Some y \<Longrightarrow> y \<noteq> Inl InvalidInput"
  using coarse_loop_rule[of sb f st y "\<lambda>st. True"] by auto

text \<open>
  Claim C5. On a matrix with fewer than two frames \<open>compute\<close> ends with the invalid-input
  error, whatever the output vectors hold: the check comes before the first pass, and the
  outcome carries no state, so nothing has been appended. On a matrix with at least two
  frames this error is not the outcome.
\<close>

theorem compute_invalid_input:
  "(dim2 features < 2 \<longrightarrow> compute sb features st0 = Some (Inl InvalidInput))
   \<and> (2 \<le> dim2 features \<longrightarrow> compute sb features st0 \<noteq> Some (Inl InvalidInput))"
proof (intro conjI impI)
  assume "dim2 features < 2"
  then show "compute sb features st0 = Some (Inl InvalidInput)"
    by (simp add: compute_def)
next
  assume "2 \<le> dim2 features"
  then show "compute sb features st0 \<noteq> Some (Inl InvalidInput)"
    unfolding compute_def Let_def coarse_pass_def
    by (auto split: option.splits sum.splits dest: coarse_loop_error)
qed

theorem compute_invalid_input_witness:
  "dim2 (zeros 1 1) < 2 \<and> compute sb_cpw0 (zeros 1 1) fresh = Some (Inl InvalidInput)
   \<and> 2 \<le> dim2 (zeros 1 2) \<and> compute sb_cpw0 (zeros 1 2) fresh \<noteq> Some (Inl InvalidInput)"
  using compute_invalid_input[of "zeros 1 1" sb_cpw0 fresh]
        compute_invalid_input[of "zeros 1 2" sb_cpw0 fresh]
  by (simp add: zeros_def)

lemma bicChangeSearch_bounds:
  assumes "1 \<le> inc"
  shows "\<exists>first d dmin. bicChangeSearch sb w inc current = Some (first, d, dmin)
     \<and> (first = 0 \<or> (current + inc - 1 \<le> first \<and> first < current + dim2 w - inc))"
proof -
  define f where "f = dBicValue_at w (logDet w) (cpw sb * cp sb * ln (real_of_int (dim2 w)))"
  define ps where "ps = positions (dim2 w) inc (inc - 1)"
  define r where "r = foldl (pick f) (0, Real_max) ps"
  define first where "first = (if snd r > 0 then 0 else current + fst r)"
  have res: "bicChangeSearch sb w inc current = Some (first, map f ps, snd r)"
    using bicChangeSearch_eq[OF assms, of sb w current]
    by (simp add: Let_def f_def ps_def r_def first_def)
  have p3: "r = (0, Real_max) \<or> (\<exists>k<length ps. fst r = ps ! k)"
    using foldl_pick[of f 0 Real_max ps] unfolding Let_def r_def by blast
  have "first = 0 \<or> (current + inc - 1 \<le> first \<and> first < current + dim2 w - inc)"
  proof (cases "snd r > 0")
    case True
    then show ?thesis by (simp add: first_def)
  next
    case False
    then have "r \<noteq> (0, Real_max)" using Real_max_pos by auto
    then obtain k where k: "k < length ps" "fst r = ps ! k" using p3 by blast
    have a: "inc - 1 + int k * inc < dim2 w - inc" and b: "ps ! k = inc - 1 + int k * inc"
      using positions_nth[OF assms, of k "dim2 w" "inc - 1"] k(1) by (simp_all add: ps_def)
    have "0 \<le> int k * inc" using assms by simp
    then show ?thesis using False a b k(2) by (simp add: first_def)
  qed
  then show ?thesis using res by blast
qed

lemma dim2_subarray: "dim2 (subarray m i0 i1 j0 j1) \<le> max 0 (j1 - j0 + 1)"
  by (simp add: subarray_def Let_def Array2D_empty_def)

lemma coarse_store_Inr:
  assumes "coarse_store sb n st i t dm = Inr st1"
  shows "st_i st1 = i \<and> st_dmin st1 = dm \<and>
         (if i \<noteq> 0
          then segmentation st1 = segmentation st @ [real_of_int i]
             \<and> segValues st1 = segValues st @ [dm]
             \<and> st_currSeg st1 = i + inc1 sb \<and> st_endSeg st1 = i + inc1 sb - 1
          else segmentation st1 = segmentation st \<and> segValues st1 = segValues st
             \<and> st_currSeg st1 = st_currSeg st \<and> st_endSeg st1 = st_endSeg st)"
  using assms unfolding coarse_store_def Let_def
  by (auto split: if_splits sum.splits)

text \<open>What one coarse round does to the state, for a step \<open>inc1 \<ge> 1\<close>.\<close>

lemma coarse_body_Inr:
  assumes inc: "1 \<le> inc1 sb" and cs: "0 \<le> st_currSeg st"
    and run: "coarse_body sb f st = Some (Inr st1)"
  shows "(st_i st1 = 0 \<and> segmentation st1 = segmentation st \<and> segValues st1 = segValues st
            \<and> st_currSeg st1 = st_currSeg st \<and> st_endSeg st1 \<le> dim2 f - 1)
       \<or> (st_i st1 \<noteq> 0 \<and> st_currSeg st \<le> st_i st1 \<and> st_i st1 + inc1 sb \<le> dim2 f - 1
            \<and> segmentation st1 = segmentation st @ [real_of_int (st_i st1)]
            \<and> segValues st1 = segValues st @ [st_dmin st1]
            \<and> st_currSeg st1 = st_i st1 + inc1 sb \<and> st_endSeg st1 = st_i st1 + inc1 sb - 1)"
proof -
  define endSeg where "endSeg = (if st_endSeg st + size1 sb \<ge> dim2 f then dim2 f - 1
                                 else st_endSeg st + size1 sb)"
  define w where "w = subarray f 0 (dim1 f - 1) (st_currSeg st) endSeg"
  have e: "endSeg \<le> dim2 f - 1" by (simp add: endSeg_def)
  obtain i t dm where s: "bicChangeSearch sb w (inc1 sb) (st_currSeg st) = Some (i, t, dm)"
    and b: "i = 0 \<or> (st_currSeg st + inc1 sb - 1 \<le> i \<and> i < st_currSeg st + dim2 w - inc1 sb)"
    using bicChangeSearch_bounds[OF inc, of sb w "st_currSeg st"] by blast
  have st: "coarse_store sb (dim2 f) (st\<lparr>st_endSeg := endSeg\<rparr>) i t dm = Inr st1"
    using run s unfolding coarse_body_def Let_def endSeg_def[symmetric] w_def[symmetric] by simp
  note c = coarse_store_Inr[OF st]
  show ?thesis
  proof (cases "i = 0")
    case True
    then show ?thesis using c e by simp
  next
    case False
    then have b': "st_currSeg st + inc1 sb - 1 \<le> i" "i < st_currSeg st + dim2 w - inc1 sb"
      using b by simp_all
    have "dim2 w \<le> max 0 (endSeg - st_currSeg st + 1)" unfolding w_def by (rule dim2_subarray)
    then have "i + inc1 sb \<le> dim2 f - 1" using b' e inc by linarith
    moreover have "st_currSeg st \<le> i" using b' inc by linarith
    ultimately show ?thesis using c False by simp
  qed
qed

section \<open>The loops of the three passes\<close>

lemma fine_store_cases:
  assumes "fine_store n st c = (st1, c1)"
  shows "st_i st1 = st_i st \<and> st_dmin st1 = st_dmin st \<and> bicValues st1 = bicValues st \<and>
     ((st1 = st \<and> c1 = c)
      \<or> (st_i st \<noteq> 0 \<and> c1 = c
          \<and> segmentation st1 = (segmentation st)[nat c := real_of_int (st_i st)]
          \<and> segValues st1 = (segValues st)[nat c := st_dmin st])
      \<or> (st_i st \<noteq> 0 \<and> c1 = c - 1 \<and> c < int (length (segmentation st))
          \<and> segmentation st1 = erase (segmentation st) (nat c)
          \<and> segValues st1 = erase (segValues st) (nat c)))"
  using assms unfolding fine_store_def Let_def
  by (auto split: if_splits)

lemma fine_store_zero: "st_i st = 0 \<Longrightarrow> fine_store n st c = (st, c)"
  by (simp add: fine_store_def)

lemma fine_body_cases:
  assumes "fine_body sb f st c = Some (st1, c1)"
  shows "st_i st1 = st_i st \<and> bicValues st1 = bicValues st \<and>
     ((segmentation st1 = segmentation st \<and> segValues st1 = segValues st \<and> c1 = c)
      \<or> (st_i st \<noteq> 0 \<and> c1 = c
          \<and> segmentation st1 = (segmentation st)[nat c := real_of_int (st_i st)]
          \<and> segValues st1 = (segValues st)[nat c := st_dmin st1])
      \<or> (st_i st \<noteq> 0 \<and> c1 = c - 1 \<and> c < int (length (segmentation st))
          \<and> segmentation st1 = erase (segmentation st) (nat c)
          \<and> segValues st1 = erase (segValues st) (nat c)))"
proof -
  obtain st0 where a: "fine_store (dim2 f) st0 c = (st1, c1)"
    and b: "st_i st0 = st_i st" "segmentation st0 = segmentation st"
           "segValues st0 = segValues st" "bicValues st0 = bicValues st"
    using assms unfolding fine_body_def Let_def
    by (fastforce split: option.splits)
  show ?thesis using fine_store_cases[OF a] b by auto
qed

lemma fine_body_returns:
  assumes "1 \<le> inc1 sb"
  shows "\<exists>st1 c1. fine_body sb f st c = Some (st1, c1)"
proof -
  define currSeg0 where "currSeg0 = int_of_Real (segmentation st ! nat c - real_of_int (size2 sb sdiv 2))"
  define currSeg where "currSeg = (if currSeg0 < 0 then 0 else currSeg0)"
  define endSeg where "endSeg = (if currSeg + size2 sb - 1 \<ge> dim2 f then dim2 f - 1
                                 else currSeg + size2 sb - 1)"
  obtain r t dm where "bicChangeSearch sb (subarray f 0 (dim1 f - 1) currSeg endSeg) (inc1 sb) currSeg
      = Some (r, t, dm)"
    using bicChangeSearch_bounds[OF assms] by blast
  then show ?thesis
    unfolding fine_body_def Let_def currSeg0_def[symmetric] currSeg_def[symmetric] endSeg_def[symmetric]
    by (simp add: prod_eq_iff)
qed

lemma length_erase: "k < length v \<Longrightarrow> length (erase v k) = length v - 1"
  by (simp add: erase_def)


text \<open>
  The second loop returns for a step \<open>inc1 \<ge> 1\<close>, and keeps every property \<open>I\<close> of the
  state that each of its rounds keeps.
\<close>

lemma fine_loop_rule:
  assumes inc: "1 \<le> inc1 sb" and init: "I st" and c0: "0 \<le> c"
    and step: "\<And>st c st1 c1. I st \<Longrightarrow> 0 \<le> c \<Longrightarrow> c < int (length (segmentation st)) \<Longrightarrow>
                 fine_body sb f st c = Some (st1, c1) \<Longrightarrow> I st1"
  shows "\<exists>st'. fine_loop sb f (st, c) = Some st' \<and> I st'"
  using init c0
proof (induction "nat (2 * int (length (segmentation st)) - c)" arbitrary: st c rule: less_induct)
  case less
  show ?case
  proof (cases "c < int (length (segmentation st))")
    case False
    then show ?thesis using less.prems by (subst fine_loop.simps) simp
  next
    case True
    obtain st1 c1 where b: "fine_body sb f st c = Some (st1, c1)"
      using fine_body_returns[OF inc] by blast
    have i1: "I st1" using step[OF less.prems(1) less.prems(2) True b] .
    note cs = fine_body_cases[OF b]
    have c1: "0 \<le> c1 + 1" using cs less.prems(2) by auto
    have "length (erase (segmentation st) (nat c)) = length (segmentation st) - 1"
      using True less.prems(2) by (intro length_erase) simp
    then have m: "nat (2 * int (length (segmentation st1)) - (c1 + 1))
               < nat (2 * int (length (segmentation st)) - c)"
      using cs True less.prems(2) by auto
    obtain st' where "fine_loop sb f (st1, c1 + 1) = Some st'" "I st'"
      using less.hyps[OF m i1 c1] by blast
    then show ?thesis using True b by (subst fine_loop.simps) simp
  qed
qed

lemma validation_body_cases:
  assumes "validation_body sb f st i = (st1, i1)"
  shows "bicValues st1 = bicValues st \<and>
     ((segmentation st1 = segmentation st \<and> segValues st1 = segValues st \<and> i1 = i + 1)
      \<or> (segmentation st1 = erase (segmentation st) i
          \<and> segValues st1 = erase (segValues st) i \<and> i1 = i))"
  using assms unfolding validation_body_def Let_def
  by (auto split: if_splits)

lemma validation_loop_rule:
  assumes init: "I st"
    and step: "\<And>st i st1 i1. I st \<Longrightarrow> int i < int (length (segmentation st)) - 1 \<Longrightarrow>
                 validation_body sb f st i = (st1, i1) \<Longrightarrow> I st1"
  shows "I (validation_loop sb f st i)"
  using init step
proof (induction sb f st i rule: validation_loop.induct)
  case (1 sb features st i)
  show ?case
  proof (cases "int i < int (length (segmentation st)) - 1")
    case False
    then show ?thesis using "1.prems"(1) by (subst validation_loop.simps) simp
  next
    case True
    obtain st1 i1 where b: "validation_body sb features st i = (st1, i1)"
      by (cases "validation_body sb features st i") auto
    have "I st1" using "1.prems"(2)[OF "1.prems"(1) True b] .
    then have "I (validation_loop sb features st1 i1)"
      using "1.IH"[OF True b[symmetric]] "1.prems"(2) by blast
    then show ?thesis using True b by (subst validation_loop.simps) simp
  qed
qed

lemma length_erase_le: "length (erase v k) \<le> length v"
  by (simp add: erase_def)


lemma fine_pass_rule:
  assumes "1 \<le> inc1 sb" and "I (st\<lparr>st_currSeg := 0\<rparr>)"
    and "\<And>st c st1 c1. I st \<Longrightarrow> 0 \<le> c \<Longrightarrow> c < int (length (segmentation st)) \<Longrightarrow>
                 fine_body sb f st c = Some (st1, c1) \<Longrightarrow> I st1"
  shows "\<exists>st'. fine_pass sb f st = Some st' \<and> I st'"
  unfolding fine_pass_def using fine_loop_rule[of sb I "st\<lparr>st_currSeg := 0\<rparr>" 0 f] assms by blast

lemma validation_pass_rule:
  assumes "I st" and "I (st\<lparr>st_currSeg := 0, st_i := 1\<rparr>)"
    and "\<And>st i st1 i1. I st \<Longrightarrow> int i < int (length (segmentation st)) - 1 \<Longrightarrow>
                 validation_body sb f st i = (st1, i1) \<Longrightarrow> I st1"
  shows "I (validation_pass sb f st)"
  unfolding validation_pass_def
  using validation_loop_rule[of I "st\<lparr>st_currSeg := 0, st_i := 1\<rparr>" sb f 1] assms by auto

lemma fine_pass_length:
  assumes "1 \<le> inc1 sb"
  shows "\<exists>st'. fine_pass sb f st = Some st' \<and> length (segmentation st') \<le> length (segmentation st)"
proof (rule fine_pass_rule[OF assms])
  show "length (segmentation (st\<lparr>st_currSeg := 0\<rparr>)) \<le> length (segmentation st)" by simp
next
  fix s c s1 c1
  assume a: "length (segmentation s) \<le> length (segmentation st)"
    and b: "fine_body sb f s c = Some (s1, c1)"
  have "length (segmentation s1) \<le> length (segmentation s)"
    using fine_body_cases[OF b] length_erase_le[of "segmentation s" "nat c"] by auto
  then show "length (segmentation s1) \<le> length (segmentation st)" using a by simp
qed

lemma validation_pass_length:
  "length (segmentation (validation_pass sb f st)) \<le> length (segmentation st)"
proof (rule validation_pass_rule[where I = "\<lambda>s. length (segmentation s) \<le> length (segmentation st)"])
  fix s i s1 i1
  assume a: "length (segmentation s) \<le> length (segmentation st)"
    and b: "validation_body sb f s i = (s1, i1)"
  have "length (segmentation s1) \<le> length (segmentation s)"
    using validation_body_cases[OF b] length_erase_le[of "segmentation s" i] by auto
  then show "length (segmentation s1) \<le> length (segmentation st)" using a by simp
qed simp_all

text \<open>
  Claim C7. For a step \<open>inc1 \<ge> 1\<close> the fine pass returns, and from any state it leaves at
  most as many entries in \<open>segmentation\<close> as it found; so does the validation pass. Neither
  pass inserts an entry.
\<close>

theorem passes_never_insert:
  assumes "1 \<le> inc1 sb"
  shows "(\<exists>st2. fine_pass sb features st1 = Some st2
            \<and> length (segmentation st2) \<le> length (segmentation st1))
       \<and> length (segmentation (validation_pass sb features st)) \<le> length (segmentation st)"
  using fine_pass_length[OF assms] validation_pass_length by blast

theorem passes_never_insert_witness:
  "1 \<le> inc1 sb_cpw0
   \<and> (\<exists>st2. fine_pass sb_cpw0 (zeros 1 12) (mk_state 9 11 0 Real_max [1, 4, 7] [0, 0, 0] []) = Some st2
            \<and> length (segmentation st2) \<le> length [1 :: real, 4, 7])
   \<and> length (segmentation (validation_pass sb_cpw0 (zeros 1 12) (mk_state 5 8 0 0 [1, 4, 7] [0, 0, 0] [])))
       \<le> length [1 :: real, 4, 7]"
  using passes_never_insert[of sb_cpw0 "zeros 1 12" "mk_state 9 11 0 Real_max [1, 4, 7] [0, 0, 0] []"
          "mk_state 5 8 0 0 [1, 4, 7] [0, 0, 0] []"]
  by (simp add: sb_cpw0_def mk_state_def)

section \<open>A run on a matrix of zeros\<close>

lemma subarray_zeros:
  "1 \<le> d1 \<Longrightarrow> j0 \<le> j1 \<Longrightarrow> subarray (zeros d1 n) 0 (d1 - 1) j0 j1 = zeros d1 (j1 - j0 + 1)"
  by (simp add: subarray_def zeros_def Let_def)

lemma positions_bounds:
  "p \<in> set (positions n inc shift) \<Longrightarrow> shift \<le> p \<and> p < n - inc"
proof (induction n inc shift rule: positions.induct)
  case (1 n inc shift)
  show ?case
  proof (cases "1 \<le> inc \<and> shift < n - inc")
    case True
    then have "positions n inc shift = shift # positions n inc (shift + inc)"
      by (subst positions.simps) simp
    then show ?thesis using "1.IH"[OF True] "1.prems" True by auto
  next
    case False
    then have "positions n inc shift = []" by (subst positions.simps) simp
    then show ?thesis using "1.prems" by simp
  qed
qed

lemma foldl_pick_zero:
  assumes "\<forall>p\<in>set ps. f p = 0" and "ps \<noteq> []" and "0 < dmin0"
  shows "foldl (pick f) (seg0, dmin0) ps = (hd ps, 0)"
proof -
  define r where "r = foldl (pick f) (seg0, dmin0) ps"
  have p1: "\<forall>p\<in>set ps. snd r \<le> f p"
    and p3: "r = (seg0, dmin0) \<or>
      (\<exists>k<length ps. fst r = ps ! k \<and> snd r = f (ps ! k) \<and> snd r < dmin0
                       \<and> (\<forall>j<k. snd r < f (ps ! j)))"
    using foldl_pick[of f seg0 dmin0 ps] unfolding Let_def r_def by blast+
  have "snd r \<le> 0" using p1 assms(1,2) by (cases ps) auto
  then have "r \<noteq> (seg0, dmin0)" using assms(3) by auto
  then obtain k where k: "k < length ps" "fst r = ps ! k" "snd r = f (ps ! k)"
      "\<forall>j<k. snd r < f (ps ! j)" using p3 by blast
  have "ps ! k \<in> set ps" using k(1) by simp
  then have z: "snd r = 0" using k(3) assms(1) by simp
  have "k = 0"
  proof (rule ccontr)
    assume "k \<noteq> 0"
    then have "snd r < f (ps ! 0)" using k(4) by simp
    moreover have "ps ! 0 \<in> set ps" using assms(2) by (intro nth_mem) simp
    then have "f (ps ! 0) = 0" using assms(1) by blast
    ultimately show False using z by simp
  qed
  then have "fst r = hd ps" using k(2) assms(2) by (simp add: hd_conv_nth)
  then show ?thesis using z unfolding r_def[symmetric] by (simp add: prod_eq_iff)
qed

text \<open>The search on a window of zeros, without penalty: every differential is \<open>0\<close>.\<close>

lemma search_zeros:
  assumes "cpw sb = 0" and "1 \<le> d1" and "1 \<le> inc" and "2 * inc \<le> n"
  shows "bicChangeSearch sb (zeros d1 n) inc cur =
           Some (cur + inc - 1, map (\<lambda>p. 0) (positions n inc (inc - 1)), 0)"
proof -
  let ?f = "dBicValue_at (zeros d1 n) (logDet (zeros d1 n)) (cpw sb * cp sb * ln (real_of_int (dim2 (zeros d1 n))))"
  let ?ps = "positions n inc (inc - 1)"
  have d: "dim2 (zeros d1 n) = n" by (simp add: zeros_def)
  have n1: "1 \<le> n" using assms by linarith
  have fz: "\<forall>p\<in>set ?ps. ?f p = 0"
  proof
    fix p assume "p \<in> set ?ps"
    then have "inc - 1 \<le> p \<and> p < n - inc" by (rule positions_bounds)
    then have "0 \<le> p" "p + 1 \<le> n - 1" using assms(3) by linarith+
    then show "?f p = 0"
      using dBicValue_at_zeros[OF assms(2), of p n 0] logDet_zeros[OF assms(2) n1] assms(1)
      by simp
  qed
  have ne: "?ps = (inc - 1) # positions n inc (inc - 1 + inc)"
    using assms by (subst positions.simps) simp
  then have hd: "hd ?ps = inc - 1" and ne': "?ps \<noteq> []" by simp_all
  have r: "foldl (pick ?f) (0, Real_max) ?ps = (hd ?ps, 0)"
    using foldl_pick_zero[OF fz ne' Real_max_pos] .
  have m: "map ?f ?ps = map (\<lambda>p. 0) ?ps"
    using fz by (intro map_cong) simp_all
  have "bicChangeSearch sb (zeros d1 n) inc cur =
     Some (let r = foldl (pick ?f) (0, Real_max) ?ps
           in (if snd r > 0 then 0 else cur + fst r, map ?f ?ps, snd r))"
    using bicChangeSearch_eq[OF assms(3), of sb "zeros d1 n" cur]
    unfolding d Let_def by simp
  also have "\<dots> = Some (cur + inc - 1, map (\<lambda>p. 0) ?ps, 0)"
    unfolding r m Let_def hd by simp
  finally show ?thesis .
qed

lemma search_none:
  assumes "1 \<le> inc" and "dim2 w < 2 * inc"
  shows "bicChangeSearch sb w inc cur = Some (0, [], Real_max)"
proof -
  have "positions (dim2 w) inc (inc - 1) = []"
    using assms by (subst positions.simps) simp
  then show ?thesis
    using bicChangeSearch_eq[OF assms(1), of sb w cur] Real_max_pos by (simp add: Let_def)
qed

lemma sb_cpw0_simps:
  "size1 sb_cpw0 = 6" "inc1 sb_cpw0 = 2" "size2 sb_cpw0 = 4" "cpw sb_cpw0 = 0" "cp sb_cpw0 = 2"
  "sb_cpw0\<lparr>cp := 2\<rparr> = sb_cpw0"
  by (simp_all add: sb_cpw0_def)

lemma zeros_simps: "dim1 (zeros d1 n) = d1" "dim2 (zeros d1 n) = n"
  by (simp_all add: zeros_def)

lemma search_zeros_6: "bicChangeSearch sb_cpw0 (zeros 1 6) 2 cur = Some (cur + 1, [0, 0], 0)"
proof -
  have "positions 6 2 1 = [1, 3]" by (simp add: positions.simps)
  then show ?thesis using search_zeros[of sb_cpw0 1 2 6 cur] by (simp add: sb_cpw0_simps)
qed

lemma search_zeros_4': "bicChangeSearch sb_cpw0 (zeros 1 4) 2 cur = Some (cur + 1, [0], 0)"
proof -
  have "positions 4 2 1 = [1]" by (simp add: positions.simps)
  then show ?thesis using search_zeros[of sb_cpw0 1 2 4 cur] by (simp add: sb_cpw0_simps)
qed

lemma search_zeros_3: "bicChangeSearch sb_cpw0 (zeros 1 3) 2 cur = Some (0, [], Real_max)"
  using search_none[of 2 "zeros 1 3" sb_cpw0 cur] by (simp add: zeros_simps)

lemma coarse_round_found:
  assumes "0 \<le> c" "c + 5 \<le> 11" "e + 6 = c + 5"
  shows "coarse_body sb_cpw0 (zeros 1 12) (mk_state c e i dm seg vals bic) =
     Some (Inr (mk_state (c + 3) (c + 2) (c + 1) 0 (seg @ [real_of_int (c + 1)]) (vals @ [0]) (bic @ [0, 0])))"
proof -
  have w: "subarray (zeros 1 12) 0 0 c (c + 5) = zeros 1 6"
    using subarray_zeros[of 1 c "c + 5" 12] by simp
  have e: "e + 6 = c + 5" by fact
  have u: "[0..1] = [0, 1::int]" by (simp add: upto_rec1)
  show ?thesis
    unfolding coarse_body_def Let_def
    using assms(1,2)
    by (simp add: zeros_simps sb_cpw0_simps e w search_zeros_6 coarse_store_def Let_def mk_state_def u)
qed

lemma coarse_round_last:
  "coarse_body sb_cpw0 (zeros 1 12) (mk_state 9 8 i dm seg vals bic) =
     Some (Inr (mk_state 9 11 0 Real_max seg vals bic))"
proof -
  have w: "subarray (zeros 1 12) 0 0 9 11 = zeros 1 3"
    using subarray_zeros[of 1 9 11 12] by simp
  show ?thesis
    unfolding coarse_body_def Let_def
    by (simp add: zeros_simps sb_cpw0_simps w search_zeros_3 coarse_store_def Let_def mk_state_def)
qed

lemma coarse_pass_zeros_12:
  "coarse_pass sb_cpw0 (zeros 1 12) fresh =
     Some (Inr (mk_state 9 11 0 Real_max [1, 4, 7] [0, 0, 0] [0, 0, 0, 0, 0, 0]))"
proof -
  have e: "\<And>c e i dm seg vals bic. st_endSeg (mk_state c e i dm seg vals bic) = e"
    by (simp add: mk_state_def)
  have r4: "coarse_loop sb_cpw0 (zeros 1 12) (mk_state 9 11 0 Real_max [1, 4, 7] [0, 0, 0] [0, 0, 0, 0, 0, 0])
      = Some (Inr (mk_state 9 11 0 Real_max [1, 4, 7] [0, 0, 0] [0, 0, 0, 0, 0, 0]))"
    by (subst coarse_loop.simps) (simp add: e zeros_simps)
  have r3: "coarse_loop sb_cpw0 (zeros 1 12) (mk_state 9 8 7 0 [1, 4, 7] [0, 0, 0] [0, 0, 0, 0, 0, 0])
      = Some (Inr (mk_state 9 11 0 Real_max [1, 4, 7] [0, 0, 0] [0, 0, 0, 0, 0, 0]))"
    by (subst coarse_loop.simps) (simp add: e zeros_simps coarse_round_last r4)
  have r2: "coarse_loop sb_cpw0 (zeros 1 12) (mk_state 6 5 4 0 [1, 4] [0, 0] [0, 0, 0, 0])
      = Some (Inr (mk_state 9 11 0 Real_max [1, 4, 7] [0, 0, 0] [0, 0, 0, 0, 0, 0]))"
    using coarse_round_found[of 6 5 4 0 "[1, 4]" "[0, 0]" "[0, 0, 0, 0]"]
    by (subst coarse_loop.simps) (simp add: e zeros_simps r3)
  have r1: "coarse_loop sb_cpw0 (zeros 1 12) (mk_state 3 2 1 0 [1] [0] [0, 0])
      = Some (Inr (mk_state 9 11 0 Real_max [1, 4, 7] [0, 0, 0] [0, 0, 0, 0, 0, 0]))"
    using coarse_round_found[of 3 2 1 0 "[1]" "[0]" "[0, 0]"]
    by (subst coarse_loop.simps) (simp add: e zeros_simps r2)
  have r0: "coarse_loop sb_cpw0 (zeros 1 12) (mk_state 0 (- 1) 0 0 [] [] [])
      = Some (Inr (mk_state 9 11 0 Real_max [1, 4, 7] [0, 0, 0] [0, 0, 0, 0, 0, 0]))"
    using coarse_round_found[of 0 "- 1" 0 0 "[]" "[]" "[]"]
    by (subst coarse_loop.simps) (simp add: e zeros_simps r1)
  have "fresh\<lparr>st_currSeg := 0, st_endSeg := - 1\<rparr> = mk_state 0 (- 1) 0 0 [] [] []"
    by (simp add: fresh_def mk_state_def)
  then show ?thesis unfolding coarse_pass_def using r0 by simp
qed

lemma fine_round_zeros:
  assumes "(if int_of_Real (seg ! nat k - 2) < 0 then 0 else int_of_Real (seg ! nat k - 2)) = c"
    "0 \<le> c" "c + 3 \<le> 11"
  shows "fine_body sb_cpw0 (zeros 1 12) (mk_state c0 e0 0 dm seg vals bic) k =
     Some (mk_state c (c + 3) 0 0 seg vals bic, k)"
proof -
  have w: "subarray (zeros 1 12) 0 0 c (3 + c) = zeros 1 4"
    using subarray_zeros[of 1 c "c + 3" 12] by (simp add: add.commute)
  have h: "(4::int) sdiv 2 = 2" by (simp add: signed_divide_int_def)
  have sg: "segmentation (mk_state c0 e0 0 dm seg vals bic) = seg" by (simp add: mk_state_def)
  have cs: "(if int_of_Real (seg ! nat k - real_of_int 2) < 0 then 0
             else int_of_Real (seg ! nat k - real_of_int 2)) = c" using assms(1) by (simp split: if_splits)
  have fs: "\<And>d e. fine_store 12 (mk_state c0 e0 0 dm seg vals bic\<lparr>st_currSeg := c, st_endSeg := e, st_dmin := d\<rparr>) k
      = (mk_state c e 0 d seg vals bic, k)"
    by (simp add: fine_store_def mk_state_def)
  show ?thesis
    unfolding fine_body_def Let_def sb_cpw0_simps h sg cs zeros_simps
    using assms(2,3)
    by (simp add: w search_zeros_4' fs) (simp add: mk_state_def)
qed

lemma fine_pass_zeros_12:
  "fine_pass sb_cpw0 (zeros 1 12) (mk_state 9 11 0 Real_max [1, 4, 7] [0, 0, 0] bic) =
     Some (mk_state 5 8 0 0 [1, 4, 7] [0, 0, 0] bic)"
proof -
  have sg: "\<And>c e i dm seg vals bic. segmentation (mk_state c e i dm seg vals bic) = seg"
    by (simp add: mk_state_def)
  have "\<lceil>- 1 :: real\<rceil> = - 1" by (rule ceiling_unique) simp_all
  then have i: "int_of_Real (1 - 2) = - 1" "int_of_Real (4 - 2) = 2" "int_of_Real (7 - 2) = 5"
    by (simp_all add: int_of_Real_def)
  have r3: "fine_loop sb_cpw0 (zeros 1 12) (mk_state 5 8 0 0 [1, 4, 7] [0, 0, 0] bic, 3)
      = Some (mk_state 5 8 0 0 [1, 4, 7] [0, 0, 0] bic)"
    by (subst fine_loop.simps) (simp add: sg)
  have r2: "fine_loop sb_cpw0 (zeros 1 12) (mk_state 2 5 0 0 [1, 4, 7] [0, 0, 0] bic, 2)
      = Some (mk_state 5 8 0 0 [1, 4, 7] [0, 0, 0] bic)"
    using fine_round_zeros[of "[1, 4, 7]" 2 5 2 5 0 "[0, 0, 0]" bic] i
    by (subst fine_loop.simps) (simp add: sg r3)
  have r1: "fine_loop sb_cpw0 (zeros 1 12) (mk_state 0 3 0 0 [1, 4, 7] [0, 0, 0] bic, 1)
      = Some (mk_state 5 8 0 0 [1, 4, 7] [0, 0, 0] bic)"
    using fine_round_zeros[of "[1, 4, 7]" 1 2 0 3 0 "[0, 0, 0]" bic] i
    by (subst fine_loop.simps) (simp add: sg r2)
  have r0: "fine_loop sb_cpw0 (zeros 1 12) (mk_state 0 11 0 Real_max [1, 4, 7] [0, 0, 0] bic, 0)
      = Some (mk_state 5 8 0 0 [1, 4, 7] [0, 0, 0] bic)"
    using fine_round_zeros[of "[1, 4, 7]" 0 0 0 11 Real_max "[0, 0, 0]" bic] i
    by (subst fine_loop.simps) (simp add: sg r1)
  have "mk_state 9 11 0 Real_max [1, 4, 7] [0, 0, 0] bic\<lparr>st_currSeg := 0\<rparr>
      = mk_state 0 11 0 Real_max [1, 4, 7] [0, 0, 0] bic"
    by (simp add: mk_state_def)
  then show ?thesis unfolding fine_pass_def using r0 by simp
qed




section \<open>The fine pass and the variable \<open>i\<close>\<close>

lemma coarse_pass_i_zero:
  assumes inc: "1 \<le> inc1 sb" and n: "2 \<le> dim2 f"
    and run: "coarse_pass sb f st0 = Some (Inr st1)"
  shows "st_i st1 = 0"
proof -
  let ?I = "\<lambda>s. 0 \<le> st_currSeg s \<and> (st_i s = 0 \<or> st_endSeg s < dim2 f - 1)"
  have "?I st1 \<and> \<not> st_endSeg st1 < dim2 f - 1"
  proof -
    have "(\<forall>e. (Inr st1 :: error + state) = Inl e \<longrightarrow> e = OutOfRange)
       \<and> (\<forall>st'. (Inr st1 :: error + state) = Inr st' \<longrightarrow> ?I st' \<and> \<not> st_endSeg st' < dim2 f - 1)"
    proof (rule coarse_loop_rule[where I = ?I, OF run[unfolded coarse_pass_def]])
      show "?I (st0\<lparr>st_currSeg := 0, st_endSeg := - 1\<rparr>)" using n by simp
    next
      fix s s1
      assume i: "?I s" and b: "coarse_body sb f s = Some (Inr s1)"
      from i have c: "0 \<le> st_currSeg s" by simp
      show "?I s1" using coarse_body_Inr[OF inc c b] c inc by auto
    qed
    then show ?thesis by blast
  qed
  then show ?thesis by auto
qed

lemma fine_pass_unchanged:
  assumes inc: "1 \<le> inc1 sb" and z: "st_i st = 0"
  shows "\<exists>st'. fine_pass sb f st = Some st' \<and> segmentation st' = segmentation st
            \<and> segValues st' = segValues st"
proof -
  let ?I = "\<lambda>s. st_i s = 0 \<and> segmentation s = segmentation st \<and> segValues s = segValues st"
  have "\<exists>st'. fine_pass sb f st = Some st' \<and> ?I st'"
  proof (rule fine_pass_rule[where I = ?I, OF inc])
    show "?I (st\<lparr>st_currSeg := 0\<rparr>)" using z by simp
  next
    fix s c s1 c1
    assume i: "?I s" and b: "fine_body sb f s c = Some (s1, c1)"
    show "?I s1" using fine_body_cases[OF b] i by auto
  qed
  then show ?thesis by blast
qed

text \<open>
  For every input, the fine pass that follows the coarse pass changes neither
  \<open>segmentation\<close> nor \<open>segValues\<close>: the coarse loop can only end in a round without a change
  point, which leaves \<open>i = 0\<close>, and the fine pass tests this \<open>i\<close>.
\<close>

lemma fine_pass_after_coarse:
  assumes "1 \<le> inc1 sb" and "2 \<le> dim2 f" and "coarse_pass sb f st0 = Some (Inr st1)"
  shows "\<exists>st2. fine_pass sb f st1 = Some st2 \<and> segmentation st2 = segmentation st1
            \<and> segValues st2 = segValues st1"
  using fine_pass_unchanged[OF assms(1) coarse_pass_i_zero[OF assms]] .

text \<open>
  Claim C4, at a failing input: twelve frames of zeros, \<open>size1 = 6\<close>, \<open>inc1 = 2\<close>,
  \<open>size2 = 4\<close>, no penalty. The coarse pass leaves the entries \<open>1, 4, 7\<close> and \<open>i = 0\<close>. In the
  fine round of the entry \<open>4\<close> the window is \<open>2..5\<close> and the search of that round finds the
  change point \<open>3\<close>, between the neighbours \<open>1\<close> and \<open>7\<close>, with \<open>dmin = 0\<close>; the fine pass
  nevertheless returns the entries \<open>1, 4, 7\<close> as they were.
\<close>

theorem fine_pass_keeps_stale_entry:
  "coarse_pass sb_cpw0 (zeros 1 12) fresh =
     Some (Inr (mk_state 9 11 0 Real_max [1, 4, 7] [0, 0, 0] [0, 0, 0, 0, 0, 0]))
   \<and> bicChangeSearch sb_cpw0 (subarray (zeros 1 12) 0 0 2 5) (inc1 sb_cpw0) 2 = Some (3, [0], 0)
   \<and> fine_pass sb_cpw0 (zeros 1 12) (mk_state 9 11 0 Real_max [1, 4, 7] [0, 0, 0] [0, 0, 0, 0, 0, 0])
       = Some (mk_state 5 8 0 0 [1, 4, 7] [0, 0, 0] [0, 0, 0, 0, 0, 0])"
proof -
  have "subarray (zeros 1 12) 0 0 2 5 = zeros 1 4"
    using subarray_zeros[of 1 2 5 12] by simp
  then show ?thesis
    using coarse_pass_zeros_12 fine_pass_zeros_12 search_zeros_4'[of 2]
    by (simp add: sb_cpw0_simps)
qed

section \<open>Every run returns\<close>




section \<open>The two vectors in lockstep\<close>





section \<open>The entries of \<open>segmentation\<close> are frame indices\<close>










section \<open>The samples stored at the end of the matrix\<close>

lemma foldl_pick_at:
  assumes k: "k < length ps"
    and before: "\<forall>j<k. f (ps ! k) < f (ps ! j)"
    and all: "\<forall>j<length ps. f (ps ! k) \<le> f (ps ! j)"
    and lt: "f (ps ! k) < dmin0"
  shows "foldl (pick f) (seg0, dmin0) ps = (ps ! k, f (ps ! k))"
proof -
  define r where "r = foldl (pick f) (seg0, dmin0) ps"
  have p1: "\<forall>p\<in>set ps. snd r \<le> f p"
    and p3: "r = (seg0, dmin0) \<or>
      (\<exists>k<length ps. fst r = ps ! k \<and> snd r = f (ps ! k) \<and> snd r < dmin0
                       \<and> (\<forall>j<k. snd r < f (ps ! j)))"
    using foldl_pick[of f seg0 dmin0 ps] unfolding Let_def r_def by blast+
  have le: "snd r \<le> f (ps ! k)" using p1 k by simp
  then have "r \<noteq> (seg0, dmin0)" using lt by auto
  then obtain k' where k': "k' < length ps" "fst r = ps ! k'" "snd r = f (ps ! k')"
      "\<forall>j<k'. snd r < f (ps ! j)" using p3 by blast
  have eq: "snd r = f (ps ! k)" using le all k'(1,3) by (simp add: order_antisym)
  have "k' = k"
  proof (rule ccontr)
    assume "k' \<noteq> k"
    then consider "k' < k" | "k < k'" by linarith
    then show False
    proof cases
      case 1
      then have "f (ps ! k) < f (ps ! k')" using before by simp
      then show False using eq k'(3) by simp
    next
      case 2
      then have "snd r < f (ps ! k)" using k'(4) by simp
      then show False using eq by simp
    qed
  qed
  then show ?thesis using k'(2) eq unfolding r_def[symmetric] by (simp add: prod_eq_iff)
qed

lemma foldl_pick_pos:
  assumes "\<forall>p\<in>set ps. 0 < f p" and "0 < dmin0"
  shows "0 < snd (foldl (pick f) (seg0, dmin0) ps)"
proof -
  define r where "r = foldl (pick f) (seg0, dmin0) ps"
  have "r = (seg0, dmin0) \<or> (\<exists>k<length ps. snd r = f (ps ! k))"
    using foldl_pick[of f seg0 dmin0 ps] unfolding Let_def r_def by blast
  then show ?thesis using assms unfolding r_def[symmetric] by auto
qed

lemma ln_4_le: "ln (4 :: real) \<le> 3"
  using ln_le_minus_one[of "4 :: real"] by simp

lemma ln_3_bounds: "0 < ln (3 :: real)" "ln (3 :: real) \<le> 2"
  using ln_le_minus_one[of "3 :: real"] by simp_all

lemma ln_9_2_le: "ln (9 / 2 :: real) \<le> 7 / 2"
  using ln_le_minus_one[of "9 / 2 :: real"] by simp

lemma step5_w1:
  "subarray step5 0 0 0 2 = \<lparr>dim1 = 1, dim2 = 3, elem = (\<lambda>i j. if 2 \<le> j then 1 else 0)\<rparr>"
  by (simp add: subarray_def step5_def Let_def)

lemma step5_w2:
  "subarray step5 0 0 2 4 = \<lparr>dim1 = 1, dim2 = 3, elem = (\<lambda>i j. if 0 \<le> j then 1 else 0)\<rparr>"
  by (simp add: subarray_def step5_def Let_def)

lemma logDet_w1:
  "logDet \<lparr>dim1 = 1, dim2 = 3, elem = (\<lambda>i j. if 2 \<le> j then 1 else 0)\<rparr> = ln (2 / 9)"
  by (simp add: logDet_def mp_of_def vp_of_def Let_def upto_rec1)

lemma logDet_w1_halves:
  "logDet (subarray \<lparr>dim1 = 1, dim2 = 3, elem = (\<lambda>i j. if 2 \<le> j then (1::real) else 0)\<rparr> 0 0 0 0) = - 5"
  "logDet (subarray \<lparr>dim1 = 1, dim2 = 3, elem = (\<lambda>i j. if 2 \<le> j then (1::real) else 0)\<rparr> 0 0 1 2) = ln (1 / 4)"
  "logDet (subarray \<lparr>dim1 = 1, dim2 = 3, elem = (\<lambda>i j. if 2 \<le> j then (1::real) else 0)\<rparr> 0 0 0 1) = - 5"
  "logDet (subarray \<lparr>dim1 = 1, dim2 = 3, elem = (\<lambda>i j. if 2 \<le> j then (1::real) else 0)\<rparr> 0 0 2 2) = - 5"
  by (simp_all add: logDet_def mp_of_def vp_of_def subarray_def Let_def upto_rec1)

lemma sb_ex_simps:
  "size1 sb_ex = 3" "inc1 sb_ex = 1" "size2 sb_ex = 4" "cpw sb_ex = 1" "cp sb_ex = 2"
  "sb_ex\<lparr>cp := 2\<rparr> = sb_ex"
  by (simp_all add: sb_ex_def)

lemma bicChangeSearch_found:
  assumes inc: "1 \<le> inc"
    and ps: "positions (dim2 w) inc (inc - 1) = ps"
    and f: "f = dBicValue_at w (logDet w) (cpw sb * cp sb * ln (real_of_int (dim2 w)))"
    and k: "k < length ps"
    and before: "\<forall>j<k. f (ps ! k) < f (ps ! j)"
    and all: "\<forall>j<length ps. f (ps ! k) \<le> f (ps ! j)"
    and neg: "f (ps ! k) \<le> 0"
  shows "bicChangeSearch sb w inc cur = Some (cur + ps ! k, map f ps, f (ps ! k))"
proof -
  have "f (ps ! k) < Real_max" using neg Real_max_pos by simp
  then have r: "foldl (pick f) (0, Real_max) ps = (ps ! k, f (ps ! k))"
    using foldl_pick_at[OF k before all] by simp
  show ?thesis
    using bicChangeSearch_eq[OF inc, of sb w cur] neg
    unfolding Let_def ps f[symmetric] r by simp
qed

lemma bicChangeSearch_not_found:
  assumes inc: "1 \<le> inc"
    and ps: "positions (dim2 w) inc (inc - 1) = ps"
    and f: "f = dBicValue_at w (logDet w) (cpw sb * cp sb * ln (real_of_int (dim2 w)))"
    and pos: "\<forall>p\<in>set ps. 0 < f p"
  shows "\<exists>dm. bicChangeSearch sb w inc cur = Some (0, map f ps, dm) \<and> 0 < dm"
proof -
  have r: "0 < snd (foldl (pick f) (0, Real_max) ps)"
    using foldl_pick_pos[OF pos Real_max_pos] .
  show ?thesis
    using bicChangeSearch_eq[OF inc, of sb w cur] r
    unfolding Let_def ps f[symmetric] by simp
qed

lemma search_step5_first:
  "\<exists>d dm. bicChangeSearch sb_ex (subarray step5 0 0 0 2) 1 0 = Some (1, d, dm) \<and> length d = 2"
proof -
  define w where "w = \<lparr>dim1 = 1, dim2 = 3, elem = (\<lambda>i j. if 2 \<le> j then (1::real) else 0)\<rparr>"
  define f where "f = dBicValue_at w (logDet w) (cpw sb_ex * cp sb_ex * ln (real_of_int (dim2 w)))"
  have d: "dim1 w = 1" "dim2 w = 3" by (simp_all add: w_def)
  have ps: "positions (dim2 w) 1 (1 - 1) = [0, 1]" by (simp add: d positions.simps)
  have f0: "f 0 = 0.5 * (- 5 + 2 * ln (1 / 4) - 3 * ln (2 / 9) + 2 * ln 3)"
    unfolding f_def dBicValue_at_def Let_def d
    using logDet_w1_halves(1,2) logDet_w1 unfolding w_def[symmetric] by (simp add: sb_ex_simps)
  have f1: "f 1 = 0.5 * (- 15 - 3 * ln (2 / 9) + 2 * ln 3)"
    unfolding f_def dBicValue_at_def Let_def d
    using logDet_w1_halves(3,4) logDet_w1 unfolding w_def[symmetric] by (simp add: sb_ex_simps)
  have l4: "ln (1 / 4 :: real) = - ln 4" by (simp add: ln_div)
  have l29: "ln (2 / 9 :: real) = - ln (9 / 2)" by (simp add: ln_div)
  have lt: "f 1 < f 0" unfolding f0 f1 l4 using ln_4_le by simp
  have neg: "f 1 \<le> 0" unfolding f1 l29 using ln_9_2_le ln_3_bounds by simp
  have "bicChangeSearch sb_ex w 1 0 = Some (0 + [0, 1] ! 1, map f [0, 1], f ([0, 1] ! 1))"
  proof (rule bicChangeSearch_found[OF _ ps f_def])
    show "\<forall>j<1. f ([0, 1] ! 1) < f ([0, 1] ! j)" using lt by simp
    show "\<forall>j<length [0, 1 :: int]. f ([0, 1] ! 1) \<le> f ([0, 1] ! j)"
      using lt by (auto simp: less_Suc_eq)
    show "f ([0, 1] ! 1) \<le> 0" using neg by simp
  qed simp_all
  then show ?thesis unfolding step5_w1 w_def[symmetric] by simp
qed

lemma search_step5_second:
  "\<exists>d dm. bicChangeSearch sb_ex (subarray step5 0 0 2 4) 1 2 = Some (0, d, dm) \<and> length d = 2"
proof -
  define w where "w = \<lparr>dim1 = 1, dim2 = 3, elem = (\<lambda>i j. if 0 \<le> j then (1::real) else 0)\<rparr>"
  define f where "f = dBicValue_at w (logDet w) (cpw sb_ex * cp sb_ex * ln (real_of_int (dim2 w)))"
  have d: "dim1 w = 1" "dim2 w = 3" by (simp_all add: w_def)
  have ps: "positions (dim2 w) 1 (1 - 1) = [0, 1]" by (simp add: d positions.simps)
  have s: "logDet w = - 5" using logDet_const[of w 1] by (simp add: w_def)
  have h: "\<And>a b. a \<le> b \<Longrightarrow> 0 \<le> a \<Longrightarrow> logDet (subarray w 0 0 a b) = - 5"
  proof -
    fix a b :: int assume ab: "a \<le> b" "0 \<le> a"
    have "logDet (subarray w 0 0 a b) = - 5 * real_of_int (dim1 (subarray w 0 0 a b))"
      using ab by (intro logDet_const[where c = 1]) (auto simp: subarray_def Let_def w_def)
    then show "logDet (subarray w 0 0 a b) = - 5" using ab by (simp add: subarray_def Let_def)
  qed
  have f: "f 0 = ln 3" "f 1 = ln 3"
    unfolding f_def dBicValue_at_def Let_def s d
    by (simp_all add: h sb_ex_simps)
  then have pos: "\<forall>p\<in>set [0, 1 :: int]. 0 < f p" using ln_3_bounds by simp
  have "\<exists>dm. bicChangeSearch sb_ex w 1 2 = Some (0, map f [0, 1], dm) \<and> 0 < dm"
    by (rule bicChangeSearch_not_found[OF _ ps f_def pos]) simp
  then show ?thesis unfolding step5_w2 w_def[symmetric] by auto
qed

lemma upto_0_1: "[0..1] = [0, 1 :: int]"
  by (simp add: upto_rec1)

text \<open>
  Claim C9, at a failing input: the frames \<open>0, 0, 1, 1, 1\<close> of one feature, \<open>size1 = 3\<close>,
  \<open>inc1 = 1\<close>, \<open>cpw = 1\<close>. The first window \<open>0..2\<close> has a change point at the frame \<open>1\<close>, so the
  second window starts at \<open>currSeg = 2\<close>; it ends on the last frame, is constant, and has no
  change point. Its curve has two samples, and the loop that stores them reads
  \<^verbatim>\<open>tmpBicValues[0 + 2]\<close>: past the end.
\<close>

theorem coarse_pass_reads_past_end:
  "compute sb_ex step5 fresh = Some (Inl OutOfRange)"
proof -
  obtain d dm where s1: "bicChangeSearch sb_ex (subarray step5 0 0 0 2) 1 0 = Some (1, d, dm)"
    and l1: "length d = 2"
    using search_step5_first by blast
  obtain d' dm' where s2: "bicChangeSearch sb_ex (subarray step5 0 0 2 4) 1 2 = Some (0, d', dm')"
    and l2: "length d' = 2"
    using search_step5_second by blast
  obtain x0 x1 where d: "d = [x0, x1]"
    using l1 by (auto simp: numeral_2_eq_2 length_Suc_conv)
  obtain y0 y1 where d': "d' = [y0, y1]"
    using l2 by (auto simp: numeral_2_eq_2 length_Suc_conv)
  have dims: "dim1 step5 = 1" "dim2 step5 = 5" by (simp_all add: step5_def)
  have b1: "coarse_body sb_ex step5 (mk_state 0 (- 1) 0 0 [] [] []) =
      Some (Inr (mk_state 2 1 1 dm [1] [dm] [x0, x1]))"
    unfolding coarse_body_def Let_def dims
    by (simp add: mk_state_def sb_ex_simps s1 d coarse_store_def Let_def upto_0_1)
  have b2: "coarse_body sb_ex step5 (mk_state 2 1 1 dm [1] [dm] [x0, x1]) = Some (Inl OutOfRange)"
    unfolding coarse_body_def Let_def dims
    by (simp add: mk_state_def sb_ex_simps s2 d' coarse_store_def Let_def upto_0_1)
  have e: "\<And>c e i dm seg vals bic. st_endSeg (mk_state c e i dm seg vals bic) = e"
    by (simp add: mk_state_def)
  have r2: "coarse_loop sb_ex step5 (mk_state 2 1 1 dm [1] [dm] [x0, x1]) = Some (Inl OutOfRange)"
    by (subst coarse_loop.simps) (simp add: e dims b2)
  have r1: "coarse_loop sb_ex step5 (mk_state 0 (- 1) 0 0 [] [] []) = Some (Inl OutOfRange)"
    by (subst coarse_loop.simps) (simp add: e dims b1 r2)
  have "fresh\<lparr>st_currSeg := 0, st_endSeg := - 1\<rparr> = mk_state 0 (- 1) 0 0 [] [] []"
    by (simp add: fresh_def mk_state_def)
  then have "coarse_pass sb_ex step5 fresh = Some (Inl OutOfRange)"
    unfolding coarse_pass_def using r1 by simp
  then show ?thesis
    unfolding compute_def Let_def dims by (simp add: sb_ex_simps)
qed

section \<open>The validation pass, run twice\<close>

lemma sb_cpw2_simps:
  "size1 sb_cpw2 = 2" "inc1 sb_cpw2 = 1" "size2 sb_cpw2 = 2" "cpw sb_cpw2 = 2" "cp sb_cpw2 = 2"
  "sb_cpw2\<lparr>cp := 2\<rparr> = sb_cpw2"
  by (simp_all add: sb_cpw2_def)

lemma bumps6_windows:
  "logDet (subarray bumps6 0 0 0 3) = ln (11 / 16)"
  "logDet (subarray (subarray bumps6 0 0 0 3) 0 0 0 1) = - 5"
  "logDet (subarray (subarray bumps6 0 0 0 3) 0 0 2 3) = ln (1 / 4)"
  "logDet (subarray bumps6 0 0 3 4) = 0"
  "logDet (subarray (subarray bumps6 0 0 3 4) 0 0 0 1) = 0"
  "logDet (subarray (subarray bumps6 0 0 3 4) 0 0 2 1) = 0"
  "logDet (subarray bumps6 0 0 0 4) = ln (16 / 25)"
  "logDet (subarray (subarray bumps6 0 0 0 4) 0 0 0 1) = - 5"
  "logDet (subarray (subarray bumps6 0 0 0 4) 0 0 2 4) = ln (2 / 3)"
  by (simp_all add: logDet_def mp_of_def vp_of_def subarray_def Let_def bumps6_def upto_rec1
        Array2D_empty_def)

lemma bumps6_dims:
  "dim1 bumps6 = 1" "dim2 bumps6 = 6"
  "dim1 (subarray bumps6 0 0 0 3) = 1" "dim2 (subarray bumps6 0 0 0 3) = 4"
  "dim1 (subarray bumps6 0 0 3 4) = 1" "dim2 (subarray bumps6 0 0 3 4) = 2"
  "dim1 (subarray bumps6 0 0 0 4) = 1" "dim2 (subarray bumps6 0 0 0 4) = 5"
  by (simp_all add: subarray_def Let_def bumps6_def)

lemma int_of_Real_numerals:
  "int_of_Real 1 = 1" "int_of_Real 2 = 2" "int_of_Real 3 = 3" "int_of_Real 4 = 4"
  "int_of_Real (1 + 1) = 2" "int_of_Real (2 + 1) = 3"
  by (simp_all add: int_of_Real_def)

lemma exp_nat_bounds: "2 ^ n \<le> exp (real n)" "exp (real n) \<le> 3 ^ n"
proof -
  have e: "exp (real n) = exp 1 ^ n" using exp_of_nat_mult[of n "1 :: real"] by simp
  have "(2 :: real) \<le> exp 1" using exp_ge_add_one_self[of "1 :: real"] by simp
  then show "2 ^ n \<le> exp (real n)" unfolding e by (intro power_mono) simp_all
  show "exp (real n) \<le> 3 ^ n" unfolding e using exp_le by (intro power_mono) simp_all
qed

lemma delta_bumps6_keep: "delta_bic sb_cpw2 (subarray bumps6 0 0 0 3) 1 \<le> 0"
proof -
  have a: "ln (1 / 4 :: real) = - ln 4" "ln (11 / 16 :: real) = - ln (16 / 11)"
    by (simp_all add: ln_div)
  have b: "ln (4 :: real) \<le> 3" using ln_le_minus_one[of "4 :: real"] by simp
  have c: "ln (16 / 11 :: real) \<le> 5 / 11" using ln_le_minus_one[of "16 / 11 :: real"] by simp
  show ?thesis
    using b c
    by (simp add: delta_bic_def Let_def bumps6_dims int_of_Real_numerals bumps6_windows sb_cpw2_simps a)
qed

lemma delta_bumps6_drop: "0 < delta_bic sb_cpw2 (subarray bumps6 0 0 3 4) 1"
  by (simp add: delta_bic_def Let_def bumps6_dims int_of_Real_numerals bumps6_windows sb_cpw2_simps)

lemma delta_bumps6_again: "0 < delta_bic sb_cpw2 (subarray bumps6 0 0 0 4) 1"
proof -
  define a b c :: real where "a = (2 / 3) ^ 4" and "b = (16 / 25) ^ 5" and "c = 5 ^ 4"
  have pos: "0 < a" "0 < b" "0 < c" by (simp_all add: a_def b_def c_def)
  have la: "ln a = 4 * ln (2 / 3)" unfolding a_def by (subst ln_realpow) simp_all
  have lb: "ln b = 5 * ln (16 / 25)" unfolding b_def by (subst ln_realpow) simp_all
  have lc: "ln c = 4 * ln 5" unfolding c_def by (subst ln_realpow) simp_all
  have "exp (real 6) \<le> 3 ^ 6" by (rule exp_nat_bounds)
  also have "\<dots> \<le> a / b * c" by (simp add: a_def b_def c_def power_divide)
  finally have "exp 6 \<le> a / b * c" by simp
  moreover have "0 < a / b * c" using pos by simp
  ultimately have "6 \<le> ln (a / b * c)" by (simp add: ln_ge_iff)
  moreover have "ln (a / b * c) = ln a - ln b + ln c"
    using pos by (simp add: ln_mult ln_div)
  ultimately have "6 \<le> 4 * ln (2 / 3 :: real) - 5 * ln (16 / 25) + 4 * ln 5"
    unfolding la lb lc by simp
  then show ?thesis
    by (simp add: delta_bic_def Let_def bumps6_dims int_of_Real_numerals bumps6_windows sb_cpw2_simps)
qed

lemma segmentation_mk_state [simp]:
  "segmentation (mk_state c e i dm seg vals bic) = seg"
  "segValues (mk_state c e i dm seg vals bic) = vals"
  "st_currSeg (mk_state c e i dm seg vals bic) = c"
  by (simp_all add: mk_state_def)

lemma validation_bumps6_first:
  "validation_pass sb_cpw2 bumps6 (mk_state c e i dm [1, 2, 3, 4] [v1, v2, v3, v4] bic)
     = mk_state 3 4 2 dm [1, 2, 4] [v1, v2, v4] bic"
proof -
  have b1: "validation_body sb_cpw2 bumps6 (mk_state 0 e 1 dm [1, 2, 3, 4] [v1, v2, v3, v4] bic) 1
      = (mk_state 3 3 2 dm [1, 2, 3, 4] [v1, v2, v3, v4] bic, 2)"
    using delta_bumps6_keep
    by (simp add: validation_body_def Let_def bumps6_dims int_of_Real_numerals mk_state_def)
  have b2: "validation_body sb_cpw2 bumps6 (mk_state 3 3 2 dm [1, 2, 3, 4] [v1, v2, v3, v4] bic) 2
      = (mk_state 3 4 2 dm [1, 2, 4] [v1, v2, v4] bic, 2)"
    using delta_bumps6_drop
    by (simp add: validation_body_def Let_def bumps6_dims int_of_Real_numerals mk_state_def erase_def)
  have l3: "validation_loop sb_cpw2 bumps6 (mk_state 3 4 2 dm [1, 2, 4] [v1, v2, v4] bic) 2
      = mk_state 3 4 2 dm [1, 2, 4] [v1, v2, v4] bic"
    by (subst validation_loop.simps) simp
  have l2: "validation_loop sb_cpw2 bumps6 (mk_state 3 3 2 dm [1, 2, 3, 4] [v1, v2, v3, v4] bic) 2
      = mk_state 3 4 2 dm [1, 2, 4] [v1, v2, v4] bic"
    by (subst validation_loop.simps) (simp add: b2 l3)
  have l1: "validation_loop sb_cpw2 bumps6 (mk_state 0 e 1 dm [1, 2, 3, 4] [v1, v2, v3, v4] bic) 1
      = mk_state 3 4 2 dm [1, 2, 4] [v1, v2, v4] bic"
    by (subst validation_loop.simps) (simp add: b1[unfolded One_nat_def] l2)
  have "mk_state c e i dm [1, 2, 3, 4] [v1, v2, v3, v4] bic\<lparr>st_currSeg := 0, st_i := 1\<rparr>
      = mk_state 0 e 1 dm [1, 2, 3, 4] [v1, v2, v3, v4] bic"
    by (simp add: mk_state_def)
  then show ?thesis unfolding validation_pass_def using l1 by simp
qed

lemma validation_bumps6_second:
  "validation_pass sb_cpw2 bumps6 (mk_state c e i dm [1, 2, 4] [v1, v2, v4] bic)
     = mk_state 0 4 1 dm [1, 4] [v1, v4] bic"
proof -
  have b1: "validation_body sb_cpw2 bumps6 (mk_state 0 e 1 dm [1, 2, 4] [v1, v2, v4] bic) 1
      = (mk_state 0 4 1 dm [1, 4] [v1, v4] bic, 1)"
    using delta_bumps6_again
    by (simp add: validation_body_def Let_def bumps6_dims int_of_Real_numerals mk_state_def erase_def)
  have l2: "validation_loop sb_cpw2 bumps6 (mk_state 0 4 1 dm [1, 4] [v1, v4] bic) 1
      = mk_state 0 4 1 dm [1, 4] [v1, v4] bic"
    by (subst validation_loop.simps) simp
  have l1: "validation_loop sb_cpw2 bumps6 (mk_state 0 e 1 dm [1, 2, 4] [v1, v2, v4] bic) 1
      = mk_state 0 4 1 dm [1, 4] [v1, v4] bic"
    by (subst validation_loop.simps) (simp add: b1[unfolded One_nat_def] l2[unfolded One_nat_def])
  have "mk_state c e i dm [1, 2, 4] [v1, v2, v4] bic\<lparr>st_currSeg := 0, st_i := 1\<rparr>
      = mk_state 0 e 1 dm [1, 2, 4] [v1, v2, v4] bic"
    by (simp add: mk_state_def)
  then show ?thesis unfolding validation_pass_def using l1 by simp
qed

lemma bumps6_coarse_windows:
  "logDet (subarray bumps6 0 0 0 1) = - 5"
  "logDet (subarray (subarray bumps6 0 0 0 1) 0 0 0 0) = - 5"
  "logDet (subarray (subarray bumps6 0 0 0 1) 0 0 1 1) = - 5"
  "logDet (subarray (subarray bumps6 0 0 0 3) 0 0 0 0) = - 5"
  "logDet (subarray (subarray bumps6 0 0 0 3) 0 0 1 3) = ln (2 / 3)"
  "logDet (subarray (subarray bumps6 0 0 0 3) 0 0 0 2) = ln (2 / 9)"
  "logDet (subarray (subarray bumps6 0 0 0 3) 0 0 3 3) = - 5"
  "logDet (subarray bumps6 0 0 2 3) = ln (1 / 4)"
  "logDet (subarray (subarray bumps6 0 0 2 3) 0 0 0 0) = - 5"
  "logDet (subarray (subarray bumps6 0 0 2 3) 0 0 1 1) = - 5"
  "logDet (subarray (subarray bumps6 0 0 3 4) 0 0 0 0) = - 5"
  "logDet (subarray (subarray bumps6 0 0 3 4) 0 0 1 1) = - 5"
  "logDet (subarray bumps6 0 0 4 5) = ln (1 / 4)"
  "logDet (subarray (subarray bumps6 0 0 4 5) 0 0 0 0) = - 5"
  "logDet (subarray (subarray bumps6 0 0 4 5) 0 0 1 1) = - 5"
  by (simp_all add: logDet_def mp_of_def vp_of_def subarray_def Let_def bumps6_def upto_rec1)

lemma bumps6_coarse_dims:
  "dim1 (subarray bumps6 0 0 0 1) = 1" "dim2 (subarray bumps6 0 0 0 1) = 2"
  "dim1 (subarray bumps6 0 0 2 3) = 1" "dim2 (subarray bumps6 0 0 2 3) = 2"
  "dim1 (subarray bumps6 0 0 4 5) = 1" "dim2 (subarray bumps6 0 0 4 5) = 2"
  "dim2 (subarray bumps6 0 0 5 5) = 1"
  by (simp_all add: subarray_def Let_def bumps6_def)

lemma ln_bounds_small:
  "ln (2 :: real) \<le> 1" "0 < ln (2 :: real)" "0 \<le> ln (4 :: real)" "ln (4 :: real) \<le> 3"
  "ln (3 / 2 :: real) \<le> 1 / 2" "ln (16 / 11 :: real) \<le> 5 / 11"
  using ln_le_minus_one[of "2 :: real"] ln_le_minus_one[of "4 :: real"]
    ln_le_minus_one[of "3 / 2 :: real"] ln_le_minus_one[of "16 / 11 :: real"]
  by simp_all

lemma ln_inverse_forms:
  "ln (1 / 4 :: real) = - ln 4" "ln (11 / 16 :: real) = - ln (16 / 11)"
  "ln (2 / 3 :: real) = - ln (3 / 2)" "ln (2 / 9 :: real) = - ln (9 / 2)"
  by (simp_all add: ln_div)

text \<open>The first window, frames \<open>0..1\<close>: no change point.\<close>

lemma search_bumps6_w01:
  "\<exists>x dm. bicChangeSearch sb_cpw2 (subarray bumps6 0 0 0 1) 1 0 = Some (0, [x], dm)"
proof -
  define w where "w = subarray bumps6 0 0 0 1"
  define f where "f = dBicValue_at w (logDet w) (cpw sb_cpw2 * cp sb_cpw2 * ln (real_of_int (dim2 w)))"
  have d: "dim1 w = 1" "dim2 w = 2" by (simp_all add: w_def bumps6_coarse_dims)
  have ps: "positions (dim2 w) 1 (1 - 1) = [0]" by (simp add: d positions.simps)
  have f0: "f 0 = 2 * ln 2"
    unfolding f_def dBicValue_at_def Let_def w_def
    by (simp add: bumps6_coarse_dims bumps6_coarse_windows sb_cpw2_simps)
  then have pos: "\<forall>p\<in>set [0 :: int]. 0 < f p" using ln_bounds_small by simp
  have "\<exists>dm. bicChangeSearch sb_cpw2 w 1 0 = Some (0, map f [0], dm) \<and> 0 < dm"
    by (rule bicChangeSearch_not_found[OF _ ps f_def pos]) simp
  then show ?thesis unfolding w_def by auto
qed

text \<open>The grown window, frames \<open>0..3\<close>: the change point \<open>1\<close>.\<close>

lemma search_bumps6_w03:
  "\<exists>x0 x1 x2 dm. bicChangeSearch sb_cpw2 (subarray bumps6 0 0 0 3) 1 0 = Some (1, [x0, x1, x2], dm)"
proof -
  define w where "w = subarray bumps6 0 0 0 3"
  define f where "f = dBicValue_at w (logDet w) (cpw sb_cpw2 * cp sb_cpw2 * ln (real_of_int (dim2 w)))"
  have d: "dim1 w = 1" "dim2 w = 4" by (simp_all add: w_def bumps6_dims)
  have ps: "positions (dim2 w) 1 (1 - 1) = [0, 1, 2]" by (simp add: d positions.simps)
  have f0: "f 0 = 0.5 * (- 5 - 3 * ln (3 / 2) + 4 * ln (16 / 11) + 4 * ln 4)"
    unfolding f_def dBicValue_at_def Let_def w_def
    by (simp add: bumps6_dims bumps6_coarse_windows bumps6_windows sb_cpw2_simps ln_inverse_forms)
  have f1: "f 1 = 0.5 * (- 10 - 2 * ln 4 + 4 * ln (16 / 11) + 4 * ln 4)"
    unfolding f_def dBicValue_at_def Let_def w_def
    by (simp add: bumps6_dims bumps6_coarse_windows bumps6_windows sb_cpw2_simps ln_inverse_forms)
  have f2: "f 2 = 0.5 * (- 3 * ln (9 / 2) - 5 + 4 * ln (16 / 11) + 4 * ln 4)"
    unfolding f_def dBicValue_at_def Let_def w_def
    by (simp add: bumps6_dims bumps6_coarse_windows bumps6_windows sb_cpw2_simps ln_inverse_forms)
  have l92: "ln (9 / 2 :: real) \<le> 5 / 3 + 2 / 3 * ln 4"
  proof -
    define a b :: real where "a = (9 / 2) ^ 3" and "b = 4 ^ 2"
    have pos: "0 < a" "0 < b" by (simp_all add: a_def b_def)
    have la: "ln a = 3 * ln (9 / 2)" unfolding a_def by (subst ln_realpow) simp_all
    have lb: "ln b = 2 * ln 4" unfolding b_def by (subst ln_realpow) simp_all
    have "ln (a / b) \<le> a / b - 1" using pos by (intro ln_le_minus_one) simp
    also have "\<dots> \<le> 5" by (simp add: a_def b_def power_divide)
    finally have "ln a - ln b \<le> 5" using pos by (simp add: ln_div)
    then show ?thesis unfolding la lb by simp
  qed
  define a b c e :: real where "a = ln 4" and "b = ln (3 / 2)" and "c = ln (16 / 11)"
    and "e = ln (9 / 2)"
  have bounds: "0 \<le> a" "a \<le> 3" "b \<le> 1 / 2" "c \<le> 5 / 11" "e \<le> 5 / 3 + 2 / 3 * a"
    unfolding a_def b_def c_def e_def using ln_bounds_small l92 by simp_all
  note fs = f0[folded a_def b_def c_def e_def] f1[folded a_def b_def c_def e_def]
    f2[folded a_def b_def c_def e_def]
  have lt: "f 1 < f 0" unfolding fs using bounds by simp
  have le: "f 1 \<le> f 2" unfolding fs using bounds by simp
  have neg: "f 1 \<le> 0" unfolding fs using bounds by simp
  have "bicChangeSearch sb_cpw2 w 1 0 = Some (0 + [0, 1, 2] ! 1, map f [0, 1, 2], f ([0, 1, 2] ! 1))"
  proof (rule bicChangeSearch_found[OF _ ps f_def])
    show "\<forall>j<1. f ([0, 1, 2] ! 1) < f ([0, 1, 2] ! j)" using lt by simp
    show "\<forall>j<length [0, 1, 2 :: int]. f ([0, 1, 2] ! 1) \<le> f ([0, 1, 2] ! j)"
      using lt le by (auto simp: less_Suc_eq)
    show "f ([0, 1, 2] ! 1) \<le> 0" using neg by simp
  qed simp_all
  then show ?thesis unfolding w_def by simp
qed

text \<open>A window of two frames with its single mid position, which is a change point.\<close>

lemma search_two_frames:
  assumes d: "dim1 w = 1" "dim2 w = 2"
    and f: "dBicValue_at w (logDet w) (cpw sb_cpw2 * cp sb_cpw2 * ln (real_of_int (dim2 w))) 0 \<le> 0"
  shows "\<exists>x. bicChangeSearch sb_cpw2 w 1 cur = Some (cur, [x], x)"
proof -
  define f where "f = dBicValue_at w (logDet w) (cpw sb_cpw2 * cp sb_cpw2 * ln (real_of_int (dim2 w)))"
  have ps: "positions (dim2 w) 1 (1 - 1) = [0]" by (simp add: d positions.simps)
  have "bicChangeSearch sb_cpw2 w 1 cur = Some (cur + [0] ! 0, map f [0], f ([0] ! 0))"
  proof (rule bicChangeSearch_found[OF _ ps f_def])
    show "f ([0] ! 0) \<le> 0" using assms(3) by (simp add: f_def)
  qed simp_all
  then show ?thesis by simp
qed

lemma search_bumps6_w23:
  "\<exists>x. bicChangeSearch sb_cpw2 (subarray bumps6 0 0 2 3) 1 2 = Some (2, [x], x)"
proof (rule search_two_frames)
  show "dBicValue_at (subarray bumps6 0 0 2 3) (logDet (subarray bumps6 0 0 2 3))
     (cpw sb_cpw2 * cp sb_cpw2 * ln (real_of_int (dim2 (subarray bumps6 0 0 2 3)))) 0 \<le> 0"
    unfolding dBicValue_at_def Let_def
    using ln_bounds_small
    by (simp add: bumps6_coarse_dims bumps6_coarse_windows sb_cpw2_simps ln_inverse_forms)
qed (simp_all add: bumps6_coarse_dims)

lemma search_bumps6_w34:
  "\<exists>x. bicChangeSearch sb_cpw2 (subarray bumps6 0 0 3 4) 1 3 = Some (3, [x], x)"
proof (rule search_two_frames)
  show "dBicValue_at (subarray bumps6 0 0 3 4) (logDet (subarray bumps6 0 0 3 4))
     (cpw sb_cpw2 * cp sb_cpw2 * ln (real_of_int (dim2 (subarray bumps6 0 0 3 4)))) 0 \<le> 0"
    unfolding dBicValue_at_def Let_def
    using ln_bounds_small
    by (simp add: bumps6_dims bumps6_coarse_windows bumps6_windows sb_cpw2_simps)
qed (simp_all add: bumps6_dims)

lemma search_bumps6_w45:
  "\<exists>x. bicChangeSearch sb_cpw2 (subarray bumps6 0 0 4 5) 1 4 = Some (4, [x], x)"
proof (rule search_two_frames)
  show "dBicValue_at (subarray bumps6 0 0 4 5) (logDet (subarray bumps6 0 0 4 5))
     (cpw sb_cpw2 * cp sb_cpw2 * ln (real_of_int (dim2 (subarray bumps6 0 0 4 5)))) 0 \<le> 0"
    unfolding dBicValue_at_def Let_def
    using ln_bounds_small
    by (simp add: bumps6_coarse_dims bumps6_coarse_windows sb_cpw2_simps ln_inverse_forms)
qed (simp_all add: bumps6_coarse_dims)

lemma search_bumps6_w55:
  "bicChangeSearch sb_cpw2 (subarray bumps6 0 0 5 5) 1 5 = Some (0, [], Real_max)"
  by (rule search_none) (simp_all add: bumps6_coarse_dims)

lemma coarse_pass_bumps6:
  "\<exists>c e i dm v1 v2 v3 v4 bic. coarse_pass sb_cpw2 bumps6 fresh =
      Some (Inr (mk_state c e i dm [1, 2, 3, 4] [v1, v2, v3, v4] bic))"
proof -
  obtain x dm1 where s1: "bicChangeSearch sb_cpw2 (subarray bumps6 0 0 0 1) 1 0 = Some (0, [x], dm1)"
    using search_bumps6_w01 by blast
  obtain x0 x1 x2 v1 where s2:
    "bicChangeSearch sb_cpw2 (subarray bumps6 0 0 0 3) 1 0 = Some (1, [x0, x1, x2], v1)"
    using search_bumps6_w03 by blast
  obtain v2 where s3: "bicChangeSearch sb_cpw2 (subarray bumps6 0 0 2 3) 1 2 = Some (2, [v2], v2)"
    using search_bumps6_w23 by blast
  obtain v3 where s4: "bicChangeSearch sb_cpw2 (subarray bumps6 0 0 3 4) 1 3 = Some (3, [v3], v3)"
    using search_bumps6_w34 by blast
  obtain v4 where s5: "bicChangeSearch sb_cpw2 (subarray bumps6 0 0 4 5) 1 4 = Some (4, [v4], v4)"
    using search_bumps6_w45 by blast
  note s6 = search_bumps6_w55
  have u: "[0..0] = [0 :: int]" by (simp add: upto_rec1)
  note ev = coarse_body_def coarse_store_def Let_def bumps6_dims mk_state_def sb_cpw2_simps upto_0_1 u
  have b1: "coarse_body sb_cpw2 bumps6 (mk_state 0 (- 1) 0 0 [] [] [])
      = Some (Inr (mk_state 0 1 0 dm1 [] [] []))"
    by (simp add: ev s1)
  have b2: "coarse_body sb_cpw2 bumps6 (mk_state 0 1 0 dm1 [] [] [])
      = Some (Inr (mk_state 2 1 1 v1 [1] [v1] [x0, x1]))"
    by (simp add: ev s2)
  have b3: "coarse_body sb_cpw2 bumps6 (mk_state 2 1 1 v1 [1] [v1] [x0, x1])
      = Some (Inr (mk_state 3 2 2 v2 [1, 2] [v1, v2] [x0, x1, v2]))"
    by (simp add: ev s3)
  have b4: "coarse_body sb_cpw2 bumps6 (mk_state 3 2 2 v2 [1, 2] [v1, v2] [x0, x1, v2])
      = Some (Inr (mk_state 4 3 3 v3 [1, 2, 3] [v1, v2, v3] [x0, x1, v2, v3]))"
    by (simp add: ev s4)
  have b5: "coarse_body sb_cpw2 bumps6 (mk_state 4 3 3 v3 [1, 2, 3] [v1, v2, v3] [x0, x1, v2, v3])
      = Some (Inr (mk_state 5 4 4 v4 [1, 2, 3, 4] [v1, v2, v3, v4] [x0, x1, v2, v3, v4]))"
    by (simp add: ev s5)
  have b6: "coarse_body sb_cpw2 bumps6 (mk_state 5 4 4 v4 [1, 2, 3, 4] [v1, v2, v3, v4] [x0, x1, v2, v3, v4])
      = Some (Inr (mk_state 5 5 0 Real_max [1, 2, 3, 4] [v1, v2, v3, v4] [x0, x1, v2, v3, v4]))"
    by (simp add: ev s6)
  have e: "\<And>c e i dm seg vals bic. st_endSeg (mk_state c e i dm seg vals bic) = e"
    by (simp add: mk_state_def)
  let ?fin = "mk_state 5 5 0 Real_max [1, 2, 3, 4] [v1, v2, v3, v4] [x0, x1, v2, v3, v4]"
  have r7: "coarse_loop sb_cpw2 bumps6 ?fin = Some (Inr ?fin)"
    by (subst coarse_loop.simps) (simp add: e bumps6_dims)
  have r6: "coarse_loop sb_cpw2 bumps6 (mk_state 5 4 4 v4 [1, 2, 3, 4] [v1, v2, v3, v4] [x0, x1, v2, v3, v4])
      = Some (Inr ?fin)"
    by (subst coarse_loop.simps) (simp add: e bumps6_dims b6 r7)
  have r5: "coarse_loop sb_cpw2 bumps6 (mk_state 4 3 3 v3 [1, 2, 3] [v1, v2, v3] [x0, x1, v2, v3])
      = Some (Inr ?fin)"
    by (subst coarse_loop.simps) (simp add: e bumps6_dims b5 r6)
  have r4: "coarse_loop sb_cpw2 bumps6 (mk_state 3 2 2 v2 [1, 2] [v1, v2] [x0, x1, v2])
      = Some (Inr ?fin)"
    by (subst coarse_loop.simps) (simp add: e bumps6_dims b4 r5)
  have r3: "coarse_loop sb_cpw2 bumps6 (mk_state 2 1 1 v1 [1] [v1] [x0, x1]) = Some (Inr ?fin)"
    by (subst coarse_loop.simps) (simp add: e bumps6_dims b3 r4)
  have r2: "coarse_loop sb_cpw2 bumps6 (mk_state 0 1 0 dm1 [] [] []) = Some (Inr ?fin)"
    by (subst coarse_loop.simps) (simp add: e bumps6_dims b2 r3)
  have r1: "coarse_loop sb_cpw2 bumps6 (mk_state 0 (- 1) 0 0 [] [] []) = Some (Inr ?fin)"
    by (subst coarse_loop.simps) (simp add: e bumps6_dims b1 r2)
  have "fresh\<lparr>st_currSeg := 0, st_endSeg := - 1\<rparr> = mk_state 0 (- 1) 0 0 [] [] []"
    by (simp add: fresh_def mk_state_def)
  then have "coarse_pass sb_cpw2 bumps6 fresh = Some (Inr ?fin)"
    unfolding coarse_pass_def using r1 by simp
  then show ?thesis by blast
qed

lemma state_as_mk_state:
  "st = mk_state (st_currSeg st) (st_endSeg st) (st_i st) (st_dmin st)
          (segmentation st) (segValues st) (bicValues st)"
  by (simp add: mk_state_def)

text \<open>
  The run of \<open>compute\<close> on the frames \<open>0, 0, 1, 2, 0, 1\<close> with \<open>size1 = 2\<close>, \<open>inc1 = 1\<close> and
  \<open>cpw = 2\<close>: the coarse pass finds the change points \<open>1, 2, 3, 4\<close>, the validation pass
  removes \<open>3\<close>, and a second validation pass on the result removes \<open>2\<close>.
\<close>

lemma compute_bumps6:
  "\<exists>st. compute sb_cpw2 bumps6 fresh = Some (Inr st) \<and> segmentation st = [1, 2, 4]
        \<and> segmentation (validation_pass sb_cpw2 bumps6 st) = [1, 4]"
proof -
  obtain c e i dm v1 v2 v3 v4 bic where
    cp: "coarse_pass sb_cpw2 bumps6 fresh = Some (Inr (mk_state c e i dm [1, 2, 3, 4] [v1, v2, v3, v4] bic))"
    using coarse_pass_bumps6 by blast
  let ?st1 = "mk_state c e i dm [1, 2, 3, 4] [v1, v2, v3, v4] bic"
  obtain st2 where fp: "fine_pass sb_cpw2 bumps6 ?st1 = Some st2"
    and sg: "segmentation st2 = [1, 2, 3, 4]" and sv: "segValues st2 = [v1, v2, v3, v4]"
    using fine_pass_after_coarse[OF _ _ cp] by (auto simp: sb_cpw2_simps bumps6_dims)
  have st2: "st2 = mk_state (st_currSeg st2) (st_endSeg st2) (st_i st2) (st_dmin st2)
               [1, 2, 3, 4] [v1, v2, v3, v4] (bicValues st2)"
    using state_as_mk_state[of st2] sg sv by simp
  have v: "validation_pass sb_cpw2 bumps6 st2
      = mk_state 3 4 2 (st_dmin st2) [1, 2, 4] [v1, v2, v4] (bicValues st2)"
    by (subst st2) (rule validation_bumps6_first)
  have "compute sb_cpw2 bumps6 fresh = Some (Inr (validation_pass sb_cpw2 bumps6 st2))"
    unfolding compute_def Let_def by (simp add: bumps6_dims sb_cpw2_simps cp fp)
  then show ?thesis
    unfolding v by (simp add: validation_bumps6_second)
qed

text \<open>
  Claim C8 as stated fails on this run: \<open>compute\<close> returns the entries \<open>1, 2, 4\<close>, and the
  validation pass, run again on what \<open>compute\<close> returned, removes the entry \<open>2\<close>. In the
  first run the entry \<open>2\<close> was tested on the window \<open>0..3\<close>, up to the entry \<open>3\<close> that was
  removed afterwards; in the second run it is tested on the window \<open>0..4\<close>.
\<close>

theorem validation_pass_not_idempotent_counterexample:
  "segmentation (projr (the (compute sb_cpw2 bumps6 fresh))) = [1, 2, 4]
   \<and> segmentation (validation_pass sb_cpw2 bumps6 (projr (the (compute sb_cpw2 bumps6 fresh))))
       = [1, 4]"
  using compute_bumps6 by auto

lemma subseq_erase: "subseq (erase xs k) xs"
proof -
  have "drop k xs = take 1 (drop k xs) @ drop (k + 1) xs"
    by (metis add.commute append_take_drop_id drop_drop)
  moreover have "subseq (drop (k + 1) xs) (take 1 (drop k xs) @ drop (k + 1) xs)"
    by (rule subseq_drop_many) simp
  ultimately have "subseq (drop (k + 1) xs) (drop k xs)" by simp
  then have "subseq (take k xs @ drop (k + 1) xs) (take k xs @ drop k xs)"
    by (simp only: subseq_append')
  then show ?thesis by (simp only: erase_def append_take_drop_id)
qed

lemma validation_pass_subseq:
  "subseq (segmentation (validation_pass sb f st)) (segmentation st)"
proof (rule validation_pass_rule[where I = "\<lambda>s. subseq (segmentation s) (segmentation st)"])
  fix s i s1 i1
  assume a: "subseq (segmentation s) (segmentation st)"
    and b: "validation_body sb f s i = (s1, i1)"
  have "subseq (segmentation s1) (segmentation s)"
    using validation_body_cases[OF b] subseq_erase[of "segmentation s" i] by auto
  then show "subseq (segmentation s1) (segmentation st)" using a subseq_order.trans by blast
qed simp_all

lemma validation_pass_short:
  assumes "length (segmentation st) < 3"
  shows "segmentation (validation_pass sb f st) = segmentation st
       \<and> segValues (validation_pass sb f st) = segValues st"
proof -
  have "validation_loop sb f (st\<lparr>st_currSeg := 0, st_i := 1\<rparr>) 1 = st\<lparr>st_currSeg := 0, st_i := 1\<rparr>"
    using assms by (subst validation_loop.simps) simp
  then show ?thesis unfolding validation_pass_def by simp
qed

text \<open>
  Claim C8, amended. A second run of the validation pass on the result of the first never
  inserts or moves an entry: its \<open>segmentation\<close> is a subsequence of the one it was given.
  When the first run leaves fewer than three entries, the second run removes none.
\<close>

theorem validation_pass_twice:
  "subseq (segmentation (validation_pass sb f (validation_pass sb f st)))
          (segmentation (validation_pass sb f st))
   \<and> (length (segmentation (validation_pass sb f st)) < 3 \<longrightarrow>
        segmentation (validation_pass sb f (validation_pass sb f st))
          = segmentation (validation_pass sb f st)
        \<and> segValues (validation_pass sb f (validation_pass sb f st))
          = segValues (validation_pass sb f st))"
  using validation_pass_subseq[of sb f "validation_pass sb f st"]
        validation_pass_short[of "validation_pass sb f st" sb f]
  by blast

theorem validation_pass_twice_witness:
  "length (segmentation (validation_pass sb_cpw2 bumps6 (mk_state 0 0 0 0 [1, 2, 4] [0, 0, 0] []))) < 3
   \<and> segmentation (validation_pass sb_cpw2 bumps6 (mk_state 0 0 0 0 [1, 2, 4] [0, 0, 0] [])) = [1, 4]
   \<and> segmentation (validation_pass sb_cpw2 bumps6
        (validation_pass sb_cpw2 bumps6 (mk_state 0 0 0 0 [1, 2, 4] [0, 0, 0] []))) = [1, 4]"
  using validation_pass_twice[of sb_cpw2 bumps6 "mk_state 0 0 0 0 [1, 2, 4] [0, 0, 0] []"]
  by (simp add: validation_bumps6_second)

end
